theory Spec2Isabelle
  imports Complex_Main "HOL-Library.Sublist"
begin

section \<open>Python text operations\<close>

text \<open>
  Python \<open>str\<close> values are modelled as HOL strings (lists of 8-bit characters, the UTF-8
  encoding of the text). The operations below are the ones the services call on strings;
  they are exact on ASCII text. Case mapping and the whitespace class are the ASCII ones.
  Python floats are idealised as reals.
\<close>

definition lower_char :: "char \<Rightarrow> char" where
  "lower_char c =
     (case map_of (zip ''ABCDEFGHIJKLMNOPQRSTUVWXYZ'' ''abcdefghijklmnopqrstuvwxyz'') c of
        Some l \<Rightarrow> l
      | None \<Rightarrow> c)"

definition lower :: "string \<Rightarrow> string" where
  "lower s = map lower_char s"

text \<open>\<open>str.isspace\<close> on ASCII: space, tab, newline, vertical tab, form feed, carriage
  return and the four separators 0x1C .. 0x1F.\<close>

definition is_space :: "char \<Rightarrow> bool" where
  "is_space c \<longleftrightarrow>
     c \<in> set [CHR '' '', CHR 0x09, CHR 0x0A, CHR 0x0B, CHR 0x0C, CHR 0x0D,
               CHR 0x1C, CHR 0x1D, CHR 0x1E, CHR 0x1F]"

definition strip :: "string \<Rightarrow> string" where
  "strip s = rev (dropWhile is_space (rev (dropWhile is_space s)))"

text \<open>\<open>s.startswith(p)\<close>\<close>

definition startswith :: "string \<Rightarrow> string \<Rightarrow> bool" where
  "startswith s p \<longleftrightarrow> take (length p) s = p"

text \<open>\<open>sub in s\<close>\<close>

fun contains :: "string \<Rightarrow> string \<Rightarrow> bool" where
  "contains sub [] = (sub = [])"
| "contains sub (c # cs) = (startswith (c # cs) sub \<or> contains sub cs)"

text \<open>\<open>s.split(d)\<close> for a one-character separator \<open>d\<close>: never the empty list.\<close>

fun split_char :: "char \<Rightarrow> string \<Rightarrow> string list" where
  "split_char d [] = [[]]"
| "split_char d (c # cs) =
     (if c = d then [] # split_char d cs
      else (case split_char d cs of
              [] \<Rightarrow> [[c]]
            | x # xs \<Rightarrow> (c # x) # xs))"

text \<open>\<open>s.split(d, 1)[1]\<close> for a one-character separator that occurs in \<open>s\<close>: the text
  after its first occurrence.\<close>

definition after_first :: "char \<Rightarrow> string \<Rightarrow> string" where
  "after_first d s = tl (dropWhile (\<lambda>c. c \<noteq> d) s)"

text \<open>The exceptions the services can see: the builtin ones by name, any other one (a
  backend failure) by its message.\<close>

datatype py_error = ValueError | OverflowError | KeyError | IndexError | Failure string

section \<open>validation\_service.parse\_validation\_response\<close>

record verdict =
  is_valid :: bool
  confidence :: real
  issues :: "string list"
  retry_recommended :: bool
  suggested_adjustment :: string

definition default_verdict :: verdict where
  "default_verdict =
     \<lparr>is_valid = True, confidence = 1.0, issues = [],
      retry_recommended = False, suggested_adjustment = []\<rparr>"

text \<open>The character class \<open>[\d.]\<close> of the regular expression.\<close>

definition is_digit :: "char \<Rightarrow> bool" where
  "is_digit c \<longleftrightarrow> c \<in> set ''0123456789''"

definition is_digit_or_dot :: "char \<Rightarrow> bool" where
  "is_digit_or_dot c \<longleftrightarrow> is_digit c \<or> c = CHR ''.''"

text \<open>\<open>re.search(r"[\d.]+", line)\<close>: the leftmost, longest run of digits and dots;
  \<open>None\<close> when the line has none.\<close>

definition search_digits_dots :: "string \<Rightarrow> string option" where
  "search_digits_dots line =
     (let m = takeWhile is_digit_or_dot (dropWhile (\<lambda>c. \<not> is_digit_or_dot c) line)
      in if m = [] then None else Some m)"

definition digit_val :: "char \<Rightarrow> nat" where
  "digit_val c = (case map_of (zip ''0123456789'' [0, 1, 2, 3, 4, 5, 6, 7, 8, 9]) c of
                    Some n \<Rightarrow> n
                  | None \<Rightarrow> 0)"

definition digits_val :: "string \<Rightarrow> nat" where
  "digits_val ds = foldl (\<lambda>a c. 10 * a + digit_val c) 0 ds"

text \<open>
  \<open>float(m)\<close> for a text \<open>m\<close> of digits and dots, which is all the regular expression
  hands to it: a \<open>ValueError\<close> (\<open>None\<close>) when \<open>m\<close> has two dots or no digit, the decimal
  value otherwise.
\<close>

definition float_digits_dots :: "string \<Rightarrow> real option" where
  "float_digits_dots m =
     (let ip = takeWhile (\<lambda>c. c \<noteq> CHR ''.'') m;
          rest = dropWhile (\<lambda>c. c \<noteq> CHR ''.'') m
      in if rest = [] then (if ip = [] then None else Some (real (digits_val ip)))
         else (let fp = tl rest
               in if CHR ''.'' \<in> set fp \<or> (ip = [] \<and> fp = []) then None
                  else Some (real (digits_val (ip @ fp)) / 10 ^ length fp)))"

text \<open>The value a \<open>CONFIDENCE:\<close> line assigns, when it assigns one: no match, or a
  \<open>ValueError\<close> swallowed by the bare \<open>except\<close>, leaves the verdict as it is.\<close>

definition parsed_confidence :: "string \<Rightarrow> real option" where
  "parsed_confidence line =
     (case search_digits_dots line of
        None \<Rightarrow> None
      | Some m \<Rightarrow> float_digits_dots m)"

text \<open>The body of the \<open>for line in lines\<close> loop, on the stripped line.\<close>

definition parse_line :: "verdict \<Rightarrow> string \<Rightarrow> verdict" where
  "parse_line result line =
     (if startswith line ''ANSWERS_QUESTION:'' then
        (if \<not> contains ''yes'' (lower line)
         then result\<lparr>is_valid := False,
                     issues := issues result @ [''doesn't answer question'']\<rparr>
         else result)
      else if startswith line ''IS_GROUNDED:'' then
        (if \<not> contains ''yes'' (lower line)
         then result\<lparr>is_valid := False,
                     issues := issues result @ [''not grounded in sources'']\<rparr>
         else result)
      else if startswith line ''HAS_HALLUCINATION:'' then
        (if contains ''yes'' (lower line)
         then result\<lparr>is_valid := False,
                     issues := issues result @ [''hallucination detected'']\<rparr>
         else result)
      else if startswith line ''CONFIDENCE:'' then
        (case parsed_confidence line of
           None \<Rightarrow> result
         | Some c \<Rightarrow>
             (if c < 0.7
              then result\<lparr>confidence := c, is_valid := False,
                          issues := issues result @ [''low confidence'']\<rparr>
              else result\<lparr>confidence := c\<rparr>))
      else if startswith line ''RETRY:'' then
        result\<lparr>retry_recommended := contains ''yes'' (lower line)\<rparr>
      else if startswith line ''ADJUSTMENT:'' then
        result\<lparr>suggested_adjustment := strip (after_first CHR '':'' line)\<rparr>
      else result)"

text \<open>\<open>text.strip().split("\n")\<close>, each line stripped as the loop does first.\<close>

definition stripped_lines :: "string \<Rightarrow> string list" where
  "stripped_lines text = map strip (split_char (CHR 0x0A) (strip text))"

definition parse_validation_response :: "string \<Rightarrow> verdict" where
  "parse_validation_response text = foldl parse_line default_verdict (stripped_lines text)"

text \<open>The negative signals of a line, and the lines that carry a field at all.\<close>

definition negative_signal :: "string \<Rightarrow> bool" where
  "negative_signal line \<longleftrightarrow>
     (startswith line ''ANSWERS_QUESTION:'' \<and> \<not> contains ''yes'' (lower line)) \<or>
     (startswith line ''IS_GROUNDED:'' \<and> \<not> contains ''yes'' (lower line)) \<or>
     (startswith line ''HAS_HALLUCINATION:'' \<and> contains ''yes'' (lower line)) \<or>
     (startswith line ''CONFIDENCE:'' \<and>
        (case parsed_confidence line of None \<Rightarrow> False | Some c \<Rightarrow> c < 0.7))"

definition recognized :: "string \<Rightarrow> bool" where
  "recognized line \<longleftrightarrow>
     startswith line ''ANSWERS_QUESTION:'' \<or> startswith line ''IS_GROUNDED:'' \<or>
     startswith line ''HAS_HALLUCINATION:'' \<or> startswith line ''CONFIDENCE:'' \<or>
     startswith line ''RETRY:'' \<or> startswith line ''ADJUSTMENT:''"

section \<open>learning\_service.apply\_threshold\_adjustments\<close>

text \<open>Python numbers: a float is a finite value, an infinity or NaN; a threshold is an
  \<open>int\<close> or a \<open>float\<close>.\<close>

datatype pyfloat = Fin real | PosInf | NegInf | NaN

datatype pyval = PInt int | PFloat pyfloat

text \<open>\<open>x < y\<close> on floats: every comparison with NaN is false.\<close>

fun float_lt :: "pyfloat \<Rightarrow> pyfloat \<Rightarrow> bool" where
  "float_lt NaN _ = False"
| "float_lt _ NaN = False"
| "float_lt (Fin a) (Fin b) = (a < b)"
| "float_lt (Fin a) PosInf = True"
| "float_lt (Fin a) NegInf = False"
| "float_lt PosInf _ = False"
| "float_lt NegInf NegInf = False"
| "float_lt NegInf _ = True"

definition as_float :: "pyval \<Rightarrow> pyfloat" where
  "as_float v = (case v of PInt i \<Rightarrow> Fin (real_of_int i) | PFloat f \<Rightarrow> f)"

definition num_lt :: "pyval \<Rightarrow> pyval \<Rightarrow> bool" where
  "num_lt a b = float_lt (as_float a) (as_float b)"

text \<open>\<open>max(a, b)\<close> keeps \<open>a\<close> unless \<open>b > a\<close>; \<open>min(a, b)\<close> keeps \<open>a\<close> unless \<open>b < a\<close>.\<close>

definition py_max :: "pyval \<Rightarrow> pyval \<Rightarrow> pyval" where
  "py_max a b = (if num_lt a b then b else a)"

definition py_min :: "pyval \<Rightarrow> pyval \<Rightarrow> pyval" where
  "py_min a b = (if num_lt b a then b else a)"

text \<open>\<open>int(v)\<close>: truncation towards zero; NaN raises \<open>ValueError\<close>, an infinity
  \<open>OverflowError\<close>.\<close>

fun py_int :: "pyval \<Rightarrow> py_error + int" where
  "py_int (PInt i) = Inr i"
| "py_int (PFloat (Fin x)) = Inr (if 0 \<le> x then \<lfloor>x\<rfloor> else \<lceil>x\<rceil>)"
| "py_int (PFloat NaN) = Inl ValueError"
| "py_int (PFloat PosInf) = Inl OverflowError"
| "py_int (PFloat NegInf) = Inl OverflowError"

text \<open>The arrow U+2192 of the adjustment texts, in UTF-8.\<close>

definition arrow :: string where
  "arrow = [CHR 0xE2, CHR 0x86, CHR 0x92]"

text \<open>\<open>s.split(sep)\<close> for a non-empty separator.\<close>

fun split_str :: "string \<Rightarrow> string \<Rightarrow> string list" where
  "split_str sep [] = [[]]"
| "split_str sep (c # cs) =
     (if startswith (c # cs) sep then [] # split_str sep (drop (length sep - 1) cs)
      else (case split_str sep cs of
              [] \<Rightarrow> [[c]]
            | x # xs \<Rightarrow> (c # x) # xs))"

text \<open>\<open>parts[1].split("(")[0].strip()\<close> with \<open>parts = adjustment_text.split(arrow)\<close>;
  evaluated only when the arrow occurs in the text, so \<open>parts[1]\<close> exists.\<close>

definition suggested_str :: "string \<Rightarrow> string" where
  "suggested_str adjustment_text =
     strip (hd (split_char CHR ''('' (split_str arrow adjustment_text ! 1)))"

text \<open>The safety bounds. The builtin \<open>float\<close> has already produced \<open>v\<close>.\<close>

definition clamp_param :: "string \<Rightarrow> pyfloat \<Rightarrow> py_error + pyval" where
  "clamp_param param v =
     (if param = ''similarity_threshold'' then
        Inr (py_max (PFloat (Fin 0.3)) (py_min (PFloat (Fin 0.8)) (PFloat v)))
      else if param = ''top_k'' then
        (case py_int (py_max (PInt 3) (py_min (PInt 10) (PFloat v))) of
           Inl e \<Rightarrow> Inl e
         | Inr k \<Rightarrow> Inr (PInt k))
      else if param = ''temperature'' then
        Inr (py_max (PFloat (Fin 0.3)) (py_min (PFloat (Fin 1.0)) (PFloat v)))
      else if param = ''validation_confidence'' then
        Inr (py_max (PFloat (Fin 0.5)) (py_min (PFloat (Fin 0.9)) (PFloat v)))
      else Inr (PFloat v))"

text \<open>
  One round of the loop over \<open>adjustments.items()\<close>. The builtin \<open>float\<close> is the
  parameter \<open>py_float\<close> (\<open>None\<close> is its \<open>ValueError\<close>). A \<open>ValueError\<close> is logged by
  the inner handler and any other exception by the outer one; both leave \<open>updated\<close> as
  it is. The \<open>KeyError\<close> that the log line after the assignment raises for a parameter
  that is not in \<open>CURRENT_THRESHOLDS\<close> comes after the assignment and changes nothing.
\<close>

definition apply_adjustment ::
  "(string \<Rightarrow> pyfloat option) \<Rightarrow> (string \<rightharpoonup> pyval) \<Rightarrow> string \<times> string \<Rightarrow> (string \<rightharpoonup> pyval)" where
  "apply_adjustment py_float updated pa =
     (case pa of (param, adjustment_text) \<Rightarrow>
        if contains arrow adjustment_text then
          (case py_float (suggested_str adjustment_text) of
             None \<Rightarrow> updated
           | Some v \<Rightarrow>
               (case clamp_param param v of
                  Inl e \<Rightarrow> updated
                | Inr suggested_value \<Rightarrow> updated(param \<mapsto> suggested_value)))
        else updated)"

text \<open>The function returns \<open>updated\<close> and leaves it merged into the module-level
  \<open>CURRENT_THRESHOLDS\<close>: the pair is (returned mapping, new global).\<close>

definition apply_threshold_adjustments ::
  "(string \<Rightarrow> pyfloat option) \<Rightarrow> (string \<rightharpoonup> pyval) \<Rightarrow> (string \<times> string) list \<Rightarrow>
     (string \<rightharpoonup> pyval) \<times> (string \<rightharpoonup> pyval)" where
  "apply_threshold_adjustments py_float CURRENT_THRESHOLDS adjustments =
     (let updated = foldl (apply_adjustment py_float) CURRENT_THRESHOLDS adjustments
      in (updated, CURRENT_THRESHOLDS ++ updated))"

definition CURRENT_THRESHOLDS_init :: "string \<rightharpoonup> pyval" where
  "CURRENT_THRESHOLDS_init =
     [''similarity_threshold'' \<mapsto> PFloat (Fin 0.5), ''top_k'' \<mapsto> PInt 5,
      ''validation_confidence'' \<mapsto> PFloat (Fin 0.7), ''temperature'' \<mapsto> PFloat (Fin 0.7)]"

text \<open>The declared safety bands.\<close>

definition banded :: "string list" where
  "banded = [''similarity_threshold'', ''top_k'', ''temperature'', ''validation_confidence'']"

definition in_band :: "string \<Rightarrow> pyval \<Rightarrow> bool" where
  "in_band param v =
     (if param = ''similarity_threshold'' then
        (case v of PFloat (Fin x) \<Rightarrow> 0.3 \<le> x \<and> x \<le> 0.8 | _ \<Rightarrow> False)
      else if param = ''top_k'' then
        (case v of PInt k \<Rightarrow> 3 \<le> k \<and> k \<le> 10 | _ \<Rightarrow> False)
      else if param = ''temperature'' then
        (case v of PFloat (Fin x) \<Rightarrow> 0.3 \<le> x \<and> x \<le> 1.0 | _ \<Rightarrow> False)
      else if param = ''validation_confidence'' then
        (case v of PFloat (Fin x) \<Rightarrow> 0.5 \<le> x \<and> x \<le> 0.9 | _ \<Rightarrow> False)
      else False)"

text \<open>An adjustment text is parseable when it has the arrow and \<open>float\<close> accepts the
  text after it.\<close>

definition parseable :: "(string \<Rightarrow> pyfloat option) \<Rightarrow> string \<Rightarrow> bool" where
  "parseable py_float adjustment_text \<longleftrightarrow>
     contains arrow adjustment_text \<and> py_float (suggested_str adjustment_text) \<noteq> None"

text \<open>\<open>float\<close> on plain signed decimals, the infinities and NaN, to run the model on
  examples; the builtin accepts more (exponents, underscores), which the theorems cover
  by taking the parser as a parameter.\<close>

definition float_decimal :: "string \<Rightarrow> pyfloat option" where
  "float_decimal s =
     (let neg = (s \<noteq> [] \<and> hd s = CHR ''-'');
          body = (if s \<noteq> [] \<and> (hd s = CHR ''-'' \<or> hd s = CHR ''+'') then tl s else s)
      in if lower body = ''nan'' then Some NaN
         else if lower body = ''inf'' \<or> lower body = ''infinity''
           then Some (if neg then NegInf else PosInf)
         else if \<not> list_all is_digit_or_dot body then None
         else (case float_digits_dots body of
                 None \<Rightarrow> None
               | Some x \<Rightarrow> Some (Fin (if neg then - x else x))))"

text \<open>An adjustments mapping to run the model on.\<close>

definition example_adjustments :: "(string \<times> string) list" where
  "example_adjustments =
     [(''similarity_threshold'', ''0.5 '' @ arrow @ '' -3.0 (lower threshold)''),
      (''top_k'', ''5 '' @ arrow @ '' 50''),
      (''validation_confidence'', ''0.7 '' @ arrow @ '' nan''),
      (''temperature'', ''hotter'')]"

section \<open>rag\_service: the pure steps\<close>

subsection \<open>The clarification category of an UNCLEAR query\<close>

text \<open>\<open>for keyword in kws: if keyword in query_lower: ...; break\<close> assigns when some
  keyword of the group occurs; the \<open>break\<close> leaves that one loop only.\<close>

definition any_keyword_in :: "string list \<Rightarrow> string \<Rightarrow> bool" where
  "any_keyword_in kws s = list_ex (\<lambda>keyword. contains keyword s) kws"

text \<open>Lines 131 to 154 of \<open>get_conversational_response\<close>: five loops in a row, each
  assigning \<open>clarification_key\<close> when its group matches.\<close>

definition clarification_key :: "string \<Rightarrow> string" where
  "clarification_key query =
     (let query_lower = strip (lower query);
          k0 = ''default'';
          k1 = (if any_keyword_in [''email''] query_lower then ''email'' else k0);
          k2 = (if any_keyword_in [''pricing'', ''price'', ''cost'', ''payment'', ''fee'']
                     query_lower then ''pricing'' else k1);
          k3 = (if any_keyword_in [''contact'', ''phone'', ''address'', ''location'']
                     query_lower then ''contact'' else k2);
          k4 = (if any_keyword_in [''services'', ''service''] query_lower
                then ''services'' else k3);
          k5 = (if any_keyword_in [''hours'', ''schedule'', ''availability''] query_lower
                then ''hours'' else k4)
      in k5)"

subsection \<open>Factual queries, the relaxed threshold and re-ranking\<close>

record settings =
  RAG_SIMILARITY_THRESHOLD :: real
  RAG_TOP_K :: int

text \<open>A retrieved snippet: the keys \<open>id\<close>, \<open>content\<close> and \<open>similarity\<close> of the
  dictionaries that \<open>similarity_search\<close> returns. Each element of the list is a
  dictionary of its own (no two positions share one).\<close>

record doc =
  doc_id :: string
  content :: string
  similarity :: real

definition factual_keywords :: "string list" where
  "factual_keywords =
     [''email'', ''phone'', ''contact'', ''address'', ''number'', ''reach'', ''call'',
      ''location'', ''where'', ''office'']"

definition is_factual_query :: "string \<Rightarrow> bool" where
  "is_factual_query query_lower = list_ex (\<lambda>keyword. contains keyword query_lower) factual_keywords"

definition select_threshold :: "settings \<Rightarrow> string \<Rightarrow> real" where
  "select_threshold st query_lower =
     (if contains ''email'' query_lower \<or> contains ''location'' query_lower \<or>
         contains ''where'' query_lower \<or> contains ''address'' query_lower then 0.20
      else if is_factual_query query_lower then 0.25
      else RAG_SIMILARITY_THRESHOLD st)"

definition search_top_k :: "settings \<Rightarrow> string \<Rightarrow> int" where
  "search_top_k st query_lower =
     (if is_factual_query query_lower then RAG_TOP_K st * 2 else RAG_TOP_K st)"

definition needs_email :: "string \<Rightarrow> bool" where
  "needs_email query_lower = contains ''email'' query_lower"

definition needs_phone :: "string \<Rightarrow> bool" where
  "needs_phone query_lower \<longleftrightarrow>
     contains ''phone'' query_lower \<or> contains ''call'' query_lower \<or>
     contains ''number'' query_lower"

definition needs_location :: "string \<Rightarrow> bool" where
  "needs_location query_lower \<longleftrightarrow>
     contains ''location'' query_lower \<or> contains ''where'' query_lower \<or>
     contains ''address'' query_lower \<or> contains ''office'' query_lower"

definition has_email :: "string \<Rightarrow> bool" where
  "has_email c = contains ''@'' c"

definition has_phone :: "string \<Rightarrow> bool" where
  "has_phone c \<longleftrightarrow> contains ''+'' c \<or> list_ex is_digit c"

definition has_location :: "string \<Rightarrow> bool" where
  "has_location c =
     list_ex (\<lambda>word. contains word c)
       [''street'', ''london'', ''uk'', ''uae'', ''city'', ''mailing address'', ''office:'']"

text \<open>\<open>min(1.0, x)\<close> keeps \<open>1.0\<close> unless \<open>x < 1.0\<close>.\<close>

definition cap1 :: "real \<Rightarrow> real" where
  "cap1 x = (if x < 1.0 then x else 1.0)"

text \<open>The body of \<open>for doc in relevant_docs\<close>: three boosts in a row, each on the
  similarity the one before left.\<close>

definition boost_doc :: "string \<Rightarrow> doc \<Rightarrow> doc" where
  "boost_doc query_lower d =
     (let c = lower (content d);
          d1 = (if needs_email query_lower \<and> has_email c
                then d\<lparr>similarity := cap1 (similarity d * 1.5)\<rparr> else d);
          d2 = (if needs_phone query_lower \<and> has_phone c
                then d1\<lparr>similarity := cap1 (similarity d1 * 1.3)\<rparr> else d1);
          d3 = (if needs_location query_lower \<and> has_location c
                then d2\<lparr>similarity := cap1 (similarity d2 * 1.6)\<rparr> else d2)
      in d3)"

text \<open>A snippet receives a boost when one of the three conditions holds for it.\<close>

definition boosted :: "string \<Rightarrow> doc \<Rightarrow> bool" where
  "boosted query_lower d \<longleftrightarrow>
     (needs_email query_lower \<and> has_email (lower (content d))) \<or>
     (needs_phone query_lower \<and> has_phone (lower (content d))) \<or>
     (needs_location query_lower \<and> has_location (lower (content d)))"

text \<open>\<open>xs[:k]\<close> for a Python integer \<open>k\<close>: a negative \<open>k\<close> counts from the end.\<close>

definition slice_to :: "int \<Rightarrow> 'a list \<Rightarrow> 'a list" where
  "slice_to k xs = (if 0 \<le> k then take (nat k) xs else take (nat (int (length xs) + k)) xs)"

text \<open>\<open>sorted(docs, key=similarity, reverse=True)\<close>: a stable sort, descending.\<close>

definition sort_by_similarity :: "doc list \<Rightarrow> doc list" where
  "sort_by_similarity docs = sort_key (\<lambda>d. - similarity d) docs"

text \<open>Step 8 of \<open>get_rag_response\<close>.\<close>

definition rerank :: "settings \<Rightarrow> string \<Rightarrow> doc list \<Rightarrow> doc list" where
  "rerank st query_lower relevant_docs =
     (if is_factual_query query_lower \<and> relevant_docs \<noteq> [] then
        slice_to (RAG_TOP_K st) (sort_by_similarity (map (boost_doc query_lower) relevant_docs))
      else relevant_docs)"

text \<open>Snippets and settings to run the re-ranking on.\<close>

definition example_docs :: "doc list" where
  "example_docs =
     [\<lparr>doc_id = ''a'', content = ''Our services'', similarity = 0.6\<rparr>,
      \<lparr>doc_id = ''b'', content = ''Mail info@githaf.com'', similarity = 0.5\<rparr>,
      \<lparr>doc_id = ''c'', content = ''About us'', similarity = 0.3\<rparr>,
      \<lparr>doc_id = ''d'', content = ''write to sales@githaf.com'', similarity = 0.9\<rparr>]"

definition example_settings :: settings where
  "example_settings = \<lparr>RAG_SIMILARITY_THRESHOLD = 0.5, RAG_TOP_K = 2\<rparr>"

section \<open>rag\_service.preprocess\_query\<close>

text \<open>The class \<open>\w\<close> of the regular expressions, on ASCII: letters, digits and the
  underscore.\<close>

definition is_word_char :: "char \<Rightarrow> bool" where
  "is_word_char c \<longleftrightarrow>
     c \<in> set ''abcdefghijklmnopqrstuvwxyzABCDEFGHIJKLMNOPQRSTUVWXYZ0123456789_''"

text \<open>\<open>\b\<close> between the character before the position (\<open>None\<close> at the start of the
  text) and the rest of the text: exactly one side is a word character.\<close>

definition word_boundary :: "char option \<Rightarrow> string \<Rightarrow> bool" where
  "word_boundary prev rest \<longleftrightarrow>
     (case prev of None \<Rightarrow> False | Some p \<Rightarrow> is_word_char p) \<noteq>
     (case rest of [] \<Rightarrow> False | c # _ \<Rightarrow> is_word_char c)"

text \<open>The text starts with the literal, compared case-insensitively
  (\<open>re.IGNORECASE\<close>).\<close>

definition ci_startswith :: "string \<Rightarrow> string \<Rightarrow> bool" where
  "ci_startswith s lit \<longleftrightarrow> length lit \<le> length s \<and> lower (take (length lit) s) = lower lit"

text \<open>An alternative matches at the position when the text starts with it and it ends
  at a word boundary.\<close>

definition alt_matches :: "string \<Rightarrow> string \<Rightarrow> bool" where
  "alt_matches s alt \<longleftrightarrow>
     ci_startswith s alt \<and>
     word_boundary (Some (last (take (length alt) s))) (drop (length alt) s)"

text \<open>
  A match of \<open>\b(alt1|alt2|...)\b\<close> that starts at the position: the first alternative, in
  the order written, that matches there. The result is the length of the match.
\<close>

definition match_words :: "string list \<Rightarrow> char option \<Rightarrow> string \<Rightarrow> nat option" where
  "match_words alts prev s =
     (if word_boundary prev s then
        (case filter (alt_matches s) alts of
           [] \<Rightarrow> None
         | alt # _ \<Rightarrow> Some (length alt))
      else None)"

text \<open>The lookahead \<open>\s+Consulting\<close>: one or more whitespace characters, then the
  literal.\<close>

definition lookahead_consulting :: "string \<Rightarrow> bool" where
  "lookahead_consulting rest \<longleftrightarrow>
     takeWhile is_space rest \<noteq> [] \<and> ci_startswith (dropWhile is_space rest) ''Consulting''"

text \<open>A match of \<open>\b(Githaf)(?!\s+Consulting)\b\<close> that starts at the position.\<close>

definition match_githaf :: "char option \<Rightarrow> string \<Rightarrow> nat option" where
  "match_githaf prev s =
     (if word_boundary prev s \<and> ci_startswith s ''Githaf'' \<and>
         \<not> lookahead_consulting (drop 6 s) \<and>
         word_boundary (Some (last (take 6 s))) (drop 6 s)
      then Some 6 else None)"

text \<open>
  \<open>re.sub(pattern, repl, text)\<close> for a pattern that matches no empty text: the text is
  scanned from the left; a match is replaced and the scan goes on behind it, any other
  character is copied. \<open>prev\<close> is the character before the position and \<open>skip\<close> the
  number of characters of the current match still to pass.
\<close>

fun re_sub :: "(char option \<Rightarrow> string \<Rightarrow> nat option) \<Rightarrow> string \<Rightarrow> char option \<Rightarrow> nat \<Rightarrow> string \<Rightarrow> string" where
  "re_sub m repl prev skip [] = []"
| "re_sub m repl prev (Suc k) (c # cs) = re_sub m repl (Some c) k cs"
| "re_sub m repl prev 0 (c # cs) =
     (case m prev (c # cs) of
        Some (Suc n) \<Rightarrow> repl @ re_sub m repl (Some c) n cs
      | _ \<Rightarrow> c # re_sub m repl (Some c) 0 cs)"

text \<open>\<open>misspelling_map\<close>, in the order of the dictionary.\<close>

definition misspelling_map :: "(string list \<times> string) list" where
  "misspelling_map =
     [([''emial'', ''emal'', ''e-mail''], ''email''),
      ([''contct'', ''contac'', ''contat''], ''contact''),
      ([''locaton'', ''loction'', ''locaion''], ''location''),
      ([''addres'', ''adress''], ''address''),
      ([''phne'', ''phn''], ''phone''),
      ([''servce'', ''servic'', ''servces''], ''services''),
      ([''consultin'', ''consultng'', ''consutling''], ''consulting''),
      ([''bussiness'', ''busines'', ''buisness''], ''business''),
      ([''queston'', ''questin'', ''qustion''], ''question''),
      ([''informaton'', ''informtion'', ''infomation''], ''information''),
      ([''avaliable'', ''availble'', ''avalable''], ''available''),
      ([''recieve'', ''recive''], ''receive''),
      ([''responce'', ''reponse''], ''response'')]"

definition fix_misspelling :: "string \<Rightarrow> string list \<times> string \<Rightarrow> string" where
  "fix_misspelling processed pr = re_sub (match_words (fst pr)) (snd pr) None 0 processed"

definition normalize_company :: "string \<Rightarrow> string" where
  "normalize_company query = re_sub match_githaf ''Githaf Consulting'' None 0 query"

definition preprocess_query :: "string \<Rightarrow> string" where
  "preprocess_query query =
     (if query = [] \<or> strip query = [] then query
      else foldl fix_misspelling (normalize_company query) misspelling_map)"

section \<open>preprocess\_query on words and separators\<close>

text \<open>A text seen as words (maximal runs of word characters) and the separator
  characters between them. The patterns of \<open>preprocess_query\<close> all start and end at a word
  boundary, so a substitution replaces whole words; the functions of this section say what
  each substitution does to the words, and are related to \<open>re_sub\<close> on the text below.\<close>

datatype tok = W string | C char

text \<open>The text of a list of words and separators.\<close>

fun render :: "tok list \<Rightarrow> string" where
  "render [] = []"
| "render (W w # ts) = w @ render ts"
| "render (C c # ts) = c # render ts"

fun starts_with_word :: "tok list \<Rightarrow> bool" where
  "starts_with_word (W w # ts) = True"
| "starts_with_word ts = False"

text \<open>Words are non-empty, made of word characters, and never adjacent; separators are
  not word characters.\<close>

fun wf_toks :: "tok list \<Rightarrow> bool" where
  "wf_toks [] = True"
| "wf_toks (C c # ts) = (\<not> is_word_char c \<and> wf_toks ts)"
| "wf_toks (W w # ts) =
     (w \<noteq> [] \<and> list_all is_word_char w \<and> \<not> starts_with_word ts \<and> wf_toks ts)"

text \<open>The words and separators of a text.\<close>

fun tokens :: "string \<Rightarrow> tok list" where
  "tokens [] = []"
| "tokens (c # cs) =
     (if is_word_char c then
        (case tokens cs of
           W w # ts \<Rightarrow> W (c # w) # ts
         | ts \<Rightarrow> W [c] # ts)
      else C c # tokens cs)"

text \<open>A substitution on words: \<open>tm w ts\<close> says whether a match starts at the word \<open>w\<close>
  followed by \<open>ts\<close>, and how many of the following items it covers.\<close>

fun tok_sub :: "(string \<Rightarrow> tok list \<Rightarrow> nat option) \<Rightarrow> tok list \<Rightarrow> tok list \<Rightarrow> tok list" where
  "tok_sub tm rep [] = []"
| "tok_sub tm rep (C c # ts) = C c # tok_sub tm rep ts"
| "tok_sub tm rep (W w # ts) =
     (case tm w ts of
        None \<Rightarrow> W w # tok_sub tm rep ts
      | Some k \<Rightarrow> rep @ tok_sub tm rep (drop k ts))"

text \<open>The position is at the start of the text or behind a separator.\<close>

definition nonword_prev :: "char option \<Rightarrow> bool" where
  "nonword_prev p = (case p of None \<Rightarrow> True | Some c \<Rightarrow> \<not> is_word_char c)"

text \<open>A matcher on texts and a matcher on words agree: matches start at the start of a
  word, cover the word and some whole items behind it, and end at the end of a word.\<close>

definition corresponds ::
  "(char option \<Rightarrow> string \<Rightarrow> nat option) \<Rightarrow> (string \<Rightarrow> tok list \<Rightarrow> nat option) \<Rightarrow> bool" where
  "corresponds m tm \<longleftrightarrow>
     (\<forall>p s n. m p s = Some n \<longrightarrow> word_boundary p s \<and> s \<noteq> [] \<and> is_word_char (hd s)) \<and>
     (\<forall>p w ts. wf_toks (W w # ts) \<and> nonword_prev p \<longrightarrow>
        m p (w @ render ts) =
          (case tm w ts of
             None \<Rightarrow> None
           | Some k \<Rightarrow> Some (length w + length (render (take k ts))))) \<and>
     (\<forall>w ts k. wf_toks (W w # ts) \<and> tm w ts = Some k \<longrightarrow>
        k \<le> length ts \<and> \<not> starts_with_word (drop k ts))"

text \<open>No match starts anywhere in the list.\<close>

fun nomatch :: "(string \<Rightarrow> tok list \<Rightarrow> nat option) \<Rightarrow> tok list \<Rightarrow> bool" where
  "nomatch tm [] = True"
| "nomatch tm (C c # ts) = nomatch tm ts"
| "nomatch tm (W w # ts) = (tm w ts = None \<and> nomatch tm ts)"

text \<open>The matchers of the patterns, on words: a list of plain alternatives, the e-mail
  pattern (whose third alternative spans three items), and the company name with its
  lookahead.\<close>

definition tm_words :: "string list \<Rightarrow> string \<Rightarrow> tok list \<Rightarrow> nat option" where
  "tm_words alts w ts = (if lower w \<in> set (map lower alts) then Some 0 else None)"

definition tm_email :: "string \<Rightarrow> tok list \<Rightarrow> nat option" where
  "tm_email w ts =
     (if lower w = ''emial'' \<or> lower w = ''emal'' then Some 0
      else (case ts of
              C c # W w' # ts' \<Rightarrow>
                if lower w = ''e'' \<and> c = CHR ''-'' \<and> lower w' = ''mail'' then Some 2 else None
            | _ \<Rightarrow> None))"

fun consulting_head :: "tok list \<Rightarrow> bool" where
  "consulting_head (W w # ts) = ci_startswith w ''Consulting''"
| "consulting_head ts = False"

fun spaces_then_consulting :: "tok list \<Rightarrow> bool" where
  "spaces_then_consulting (C c # ts) =
     (is_space c \<and> (consulting_head ts \<or> spaces_then_consulting ts))"
| "spaces_then_consulting [] = False"
| "spaces_then_consulting (W w # ts) = False"

definition tm_githaf :: "string \<Rightarrow> tok list \<Rightarrow> nat option" where
  "tm_githaf w ts =
     (if lower w = ''githaf'' \<and> \<not> spaces_then_consulting ts then Some 0 else None)"

text \<open>A pattern of plain alternatives replaces single words.\<close>

definition wsub :: "string list \<Rightarrow> string \<Rightarrow> tok \<Rightarrow> tok" where
  "wsub alts rep t =
     (case t of
        W w \<Rightarrow> if lower w \<in> set (map lower alts) then W rep else W w
      | C c \<Rightarrow> C c)"

text \<open>The replacement \<open>Githaf Consulting\<close> as words.\<close>

definition company_toks :: "tok list" where
  "company_toks = [W ''Githaf'', C CHR '' '', W ''Consulting'']"

text \<open>\<open>preprocess_query\<close> on words and separators: the company name, the e-mail pattern,
  then the other entries of \<open>misspelling_map\<close>.\<close>

definition tok_fix :: "tok list \<Rightarrow> string list \<times> string \<Rightarrow> tok list" where
  "tok_fix ts pr = map (wsub (fst pr) (snd pr)) ts"

definition word_entries :: "(string list \<times> string) list" where
  "word_entries = tl misspelling_map"

definition preprocess_toks :: "tok list \<Rightarrow> tok list" where
  "preprocess_toks ts =
     foldl tok_fix (tok_sub tm_email [W ''email''] (tok_sub tm_githaf company_toks ts))
       word_entries"

section \<open>The services as effectful programs\<close>

subsection \<open>State, externals and results\<close>

text \<open>Modelled from the spec: the closed enumeration \<open>Intent\<close> of
  \<open>app.services.intent_service\<close>, which is not among the sources.\<close>

datatype intent =
  GREETING | FAREWELL | GRATITUDE | HELP | CHIT_CHAT | UNCLEAR | OUT_OF_SCOPE | QUESTION

text \<open>Values the pipeline only passes on.\<close>

type_synonym embedding = "real list"
type_synonym history = "(string \<times> string) list"
type_synonym plan = string

text \<open>The calls to the external services, with the arguments the pipeline chose, and
  the retry warning of the logger, in the order they happen.\<close>

datatype event =
    Classify string
  | Metadata intent string
  | NeedsPlanning string
  | CreatePlan string
  | ExecutePlan "string option"
  | Embed string
  | Search int real
  | History string int
  | FormatHistory
  | Generate string "int option" "real option"
  | LogRetry int int

text \<open>
  The process: the two settings of \<open>config.settings\<close> that the services read and
  write, the number of external calls and random draws made so far, and the trace of
  events.
\<close>

record world =
  cfg :: settings
  tick :: nat
  trace :: "event list"

text \<open>A computation returns, raises, or is cut off by the bound on the nesting of
  pipeline calls.\<close>

datatype 'a res = Ret 'a | Raise py_error | OutOfFuel

type_synonym 'a io = "world \<Rightarrow> 'a res \<times> world"

definition ret :: "'a \<Rightarrow> 'a io" where
  "ret a = (\<lambda>w. (Ret a, w))"

definition and_then :: "'a io \<Rightarrow> ('a \<Rightarrow> 'b io) \<Rightarrow> 'b io" where
  "and_then m f =
     (\<lambda>w. case m w of
            (Ret a, w') \<Rightarrow> f a w'
          | (Raise e, w') \<Rightarrow> (Raise e, w')
          | (OutOfFuel, w') \<Rightarrow> (OutOfFuel, w'))"

text \<open>\<open>try: m except Exception as e: h e\<close>\<close>

definition try_except :: "'a io \<Rightarrow> (py_error \<Rightarrow> 'a io) \<Rightarrow> 'a io" where
  "try_except m h =
     (\<lambda>w. case m w of
            (Raise e, w') \<Rightarrow> h e w'
          | (r, w') \<Rightarrow> (r, w'))"

text \<open>\<open>try: m finally: cleanup\<close>\<close>

definition try_finally :: "'a io \<Rightarrow> (world \<Rightarrow> world) \<Rightarrow> 'a io" where
  "try_finally m cleanup =
     (\<lambda>w. case m w of
            (OutOfFuel, w') \<Rightarrow> (OutOfFuel, w')
          | (r, w') \<Rightarrow> (r, cleanup w'))"

text \<open>
  An external call. What an external service answers may depend on everything that
  happened before, so its answer is a function of the number of calls made so far (and
  of its arguments); the call is recorded in the trace.
\<close>

definition call :: "(nat \<Rightarrow> py_error + 'a) \<Rightarrow> event \<Rightarrow> 'a io" where
  "call f ev =
     (\<lambda>w. ((case f (tick w) of Inl e \<Rightarrow> Raise e | Inr a \<Rightarrow> Ret a),
           w\<lparr>tick := Suc (tick w), trace := trace w @ [ev]\<rparr>))"

definition log_event :: "event \<Rightarrow> unit io" where
  "log_event ev = (\<lambda>w. (Ret (), w\<lparr>trace := trace w @ [ev]\<rparr>))"

definition get_cfg :: "settings io" where
  "get_cfg = (\<lambda>w. (Ret (cfg w), w))"

text \<open>A source of a response, as returned to the caller.\<close>

record source =
  src_id :: string
  src_content :: string
  src_similarity :: real

record validation_meta =
  val_confidence :: real
  val_retry_count :: int
  val_issues :: "string list"
  val_is_valid :: bool

text \<open>The dictionary \<open>get_rag_response\<close> returns; a key that a branch leaves out is
  \<open>None\<close>.\<close>

record rag_result =
  response :: string
  sources :: "source list"
  context_found :: bool
  result_intent :: "intent option"
  conversational :: "bool option"
  planned :: "bool option"
  result_plan :: "plan option"
  validation :: "validation_meta option"
  result_error :: "py_error option"

text \<open>
  The collaborators that are not among the sources (intent, planning, embedding,
  vector store, conversation and LLM services, \<open>random\<close>) and the constants of
  \<open>app.utils.prompts\<close>, as parameters of the model. The first argument of a service is
  the number of calls made before this one.
\<close>

record env =
  classify_intent_hybrid :: "nat \<Rightarrow> string \<Rightarrow> py_error + intent \<times> real"
  get_intent_metadata :: "nat \<Rightarrow> intent \<Rightarrow> string \<Rightarrow> py_error + unit"
  should_use_rag :: "intent \<Rightarrow> bool"
  needs_planning :: "nat \<Rightarrow> string \<Rightarrow> intent \<Rightarrow> py_error + bool"
  create_plan :: "nat \<Rightarrow> string \<Rightarrow> intent \<Rightarrow> string option \<Rightarrow> py_error + plan"
  execute_plan :: "nat \<Rightarrow> plan \<Rightarrow> string option \<Rightarrow> py_error + string \<times> bool"
  get_embedding :: "nat \<Rightarrow> string \<Rightarrow> py_error + embedding"
  similarity_search :: "nat \<Rightarrow> embedding \<Rightarrow> int \<Rightarrow> real \<Rightarrow> py_error + doc list"
  get_conversation_history :: "nat \<Rightarrow> string \<Rightarrow> int \<Rightarrow> py_error + history"
  format_history_for_llm :: "nat \<Rightarrow> history \<Rightarrow> py_error + string"
  generate_response :: "nat \<Rightarrow> string \<Rightarrow> int option \<Rightarrow> real option \<Rightarrow> py_error + string"
  random_index :: "nat \<Rightarrow> nat"
  RAG_SYSTEM_PROMPT :: "string \<Rightarrow> string \<Rightarrow> string \<Rightarrow> string"
  VALIDATION_PROMPT :: "string \<Rightarrow> string \<Rightarrow> string \<Rightarrow> string"
  CONVERSATIONAL_WITH_CONTEXT_PROMPT :: "string \<Rightarrow> string \<Rightarrow> string"
  FALLBACK_RESPONSE :: string
  GREETING_RESPONSES :: "string list"
  FAREWELL_RESPONSES :: "string list"
  GRATITUDE_RESPONSES :: "string list"
  HELP_RESPONSE :: string
  CHIT_CHAT_RESPONSES :: "string \<rightharpoonup> string list"
  UNCLEAR_QUERY_RESPONSE :: string
  OUT_OF_SCOPE_RESPONSE :: string
  CLARIFICATION_RESPONSES :: "string \<rightharpoonup> string list"

text \<open>\<open>random.choice(xs)\<close>: an \<open>IndexError\<close> on the empty list.\<close>

definition random_choice :: "env \<Rightarrow> string list \<Rightarrow> string io" where
  "random_choice env xs =
     (\<lambda>w. if xs = [] then (Raise IndexError, w)
          else (Ret (xs ! (random_index env (tick w) mod length xs)), w\<lparr>tick := Suc (tick w)\<rparr>))"

text \<open>\<open>d[key]\<close>: a \<open>KeyError\<close> on a missing key.\<close>

definition lookup :: "(string \<rightharpoonup> 'a) \<Rightarrow> string \<Rightarrow> 'a io" where
  "lookup d key = (case d key of None \<Rightarrow> (\<lambda>w. (Raise KeyError, w)) | Some v \<Rightarrow> ret v)"

text \<open>\<open>sep.join(xs)\<close> and \<open>str(n)\<close> for a natural number.\<close>

fun join :: "string \<Rightarrow> string list \<Rightarrow> string" where
  "join sep [] = []"
| "join sep [x] = x"
| "join sep (x # y # ys) = x @ sep @ join sep (y # ys)"

fun str_nat :: "nat \<Rightarrow> string" where
  "str_nat n =
     (if n < 10 then [''0123456789'' ! n]
      else str_nat (n div 10) @ [''0123456789'' ! (n mod 10)])"

subsection \<open>validation\_service.validate\_response\<close>

definition sources_text :: "source list \<Rightarrow> string" where
  "sources_text srcs =
     (if srcs = [] then ''No sources used''
      else join [CHR 0x0A] (map (\<lambda>s. ''- '' @ take 100 (src_content s) @ ''...'') srcs))"

definition validation_error_verdict :: verdict where
  "validation_error_verdict =
     \<lparr>is_valid = True, confidence = 0.5, issues = [''validation_error''],
      retry_recommended = False, suggested_adjustment = []\<rparr>"

definition validate_response :: "env \<Rightarrow> string \<Rightarrow> string \<Rightarrow> source list \<Rightarrow> verdict io" where
  "validate_response env query resp srcs =
     (let prompt = VALIDATION_PROMPT env query resp (sources_text srcs) in
      try_except
        (and_then
           (call (\<lambda>t. generate_response env t prompt (Some 200) (Some 0.1))
              (Generate prompt (Some 200) (Some 0.1)))
           (\<lambda>assessment_text. ret (parse_validation_response assessment_text)))
        (\<lambda>e. ret validation_error_verdict))"

subsection \<open>validation\_service.retry\_with\_adjustment\<close>

text \<open>The pipeline \<open>get_rag_response(query, session_id, include_history, max_retries)\<close>,
  which \<open>retry_with_adjustment\<close> imports when it runs.\<close>

type_synonym pipeline = "string \<Rightarrow> string option \<Rightarrow> bool \<Rightarrow> int \<Rightarrow> rag_result io"

text \<open>\<open>new_threshold\<close> and \<open>new_top_k\<close>, lines 160 to 176.\<close>

definition retry_settings :: "string \<Rightarrow> real \<Rightarrow> settings" where
  "retry_settings adjustment original_threshold =
     (let adjustment_lower = lower adjustment in
      if contains ''lower threshold'' adjustment_lower \<or>
         contains ''expand search'' adjustment_lower then
        \<lparr>RAG_SIMILARITY_THRESHOLD = max 0.15 (original_threshold - 0.1), RAG_TOP_K = 5\<rparr>
      else if contains ''more documents'' adjustment_lower \<or>
              contains ''increase top_k'' adjustment_lower then
        \<lparr>RAG_SIMILARITY_THRESHOLD = original_threshold, RAG_TOP_K = 10\<rparr>
      else if contains ''rephrase'' adjustment_lower then
        \<lparr>RAG_SIMILARITY_THRESHOLD = max 0.2 (original_threshold - 0.05), RAG_TOP_K = 5\<rparr>
      else \<lparr>RAG_SIMILARITY_THRESHOLD = original_threshold, RAG_TOP_K = 5\<rparr>)"

definition override_settings :: "settings \<Rightarrow> world \<Rightarrow> world" where
  "override_settings new w =
     w\<lparr>cfg := (cfg w)\<lparr>RAG_SIMILARITY_THRESHOLD := RAG_SIMILARITY_THRESHOLD new,
                       RAG_TOP_K := RAG_TOP_K new\<rparr>\<rparr>"

text \<open>Lines 178 to 193: the settings are overwritten, the pipeline runs with
  \<open>include_history=False\<close> and no session, and the \<open>finally\<close> writes the saved values
  back.\<close>

definition retry_with_adjustment :: "pipeline \<Rightarrow> string \<Rightarrow> string \<Rightarrow> real \<Rightarrow> rag_result io" where
  "retry_with_adjustment rag query adjustment original_threshold =
     (\<lambda>w. let original_settings = cfg w in
          try_finally (rag query None False 2) (override_settings original_settings)
            (override_settings (retry_settings adjustment original_threshold) w))"

subsection \<open>rag\_service.get\_conversational\_response\<close>

definition conversational_result :: "intent \<Rightarrow> string \<Rightarrow> rag_result" where
  "conversational_result i response_text =
     \<lparr>response = response_text, sources = [], context_found = False,
      result_intent = Some i, conversational = Some True, planned = None,
      result_plan = None, validation = None, result_error = None\<rparr>"

definition affirmations :: "string list" where
  "affirmations = [''yes'', ''okay'', ''ok'', ''sure'', ''yep'', ''yeah'', ''yup'']"

text \<open>\<open>random.choice(CHIT_CHAT_RESPONSES[key])\<close>\<close>

definition chit_chat_template :: "env \<Rightarrow> string \<Rightarrow> string io" where
  "chit_chat_template env key = and_then (lookup (CHIT_CHAT_RESPONSES env) key) (random_choice env)"

text \<open>The branch \<open>intent == Intent.CHIT_CHAT\<close>, lines 159 to 190. A session id counts
  when it is neither \<open>None\<close> nor the empty string.\<close>

definition chit_chat_response :: "env \<Rightarrow> string \<Rightarrow> string option \<Rightarrow> string io" where
  "chit_chat_response env query session_id =
     (let query_lower = strip (lower query) in
      if contains ''how are you'' query_lower \<or> contains ''how r u'' query_lower then
        chit_chat_template env ''how_are_you''
      else if contains ''your name'' query_lower \<or> contains ''who are you'' query_lower \<or>
              contains ''what are you'' query_lower then
        chit_chat_template env ''name''
      else if contains ''bot'' query_lower \<or> contains ''robot'' query_lower \<or>
              contains ''ai'' query_lower then
        chit_chat_template env ''bot''
      else if session_id \<noteq> None \<and> session_id \<noteq> Some [] \<and> query_lower \<in> set affirmations then
        and_then
          (call (\<lambda>t. get_conversation_history env t (the session_id) 3)
             (History (the session_id) 3))
          (\<lambda>history.
             if history \<noteq> [] then
               and_then (call (\<lambda>t. format_history_for_llm env t history) FormatHistory)
                 (\<lambda>history_text.
                    let prompt = CONVERSATIONAL_WITH_CONTEXT_PROMPT env query history_text in
                    try_except
                      (call (\<lambda>t. generate_response env t prompt (Some 100) (Some 0.7))
                         (Generate prompt (Some 100) (Some 0.7)))
                      (\<lambda>e. chit_chat_template env ''default''))
             else chit_chat_template env ''default'')
      else chit_chat_template env ''default'')"

text \<open>\<open>random.choice(CLARIFICATION_RESPONSES.get(key, CLARIFICATION_RESPONSES["default"]))\<close>:
  the default is looked up first, as Python evaluates the arguments.\<close>

definition clarification_response :: "env \<Rightarrow> string \<Rightarrow> string io" where
  "clarification_response env query =
     and_then (lookup (CLARIFICATION_RESPONSES env) ''default'')
       (\<lambda>dflt. random_choice env
          (case CLARIFICATION_RESPONSES env (clarification_key query) of
             None \<Rightarrow> dflt
           | Some xs \<Rightarrow> xs))"

definition get_conversational_response ::
  "env \<Rightarrow> intent \<Rightarrow> string \<Rightarrow> string option \<Rightarrow> rag_result io" where
  "get_conversational_response env i query session_id =
     and_then
       (if i = GREETING then random_choice env (GREETING_RESPONSES env)
        else if i = FAREWELL then random_choice env (FAREWELL_RESPONSES env)
        else if i = GRATITUDE then random_choice env (GRATITUDE_RESPONSES env)
        else if i = HELP then ret (HELP_RESPONSE env)
        else if i = OUT_OF_SCOPE then ret (OUT_OF_SCOPE_RESPONSE env)
        else if i = UNCLEAR then clarification_response env query
        else if i = CHIT_CHAT then chit_chat_response env query session_id
        else ret (UNCLEAR_QUERY_RESPONSE env))
       (\<lambda>response_text. ret (conversational_result i response_text))"

subsection \<open>rag\_service.get\_rag\_response\<close>

definition fallback_result :: "env \<Rightarrow> intent option \<Rightarrow> py_error option \<Rightarrow> rag_result" where
  "fallback_result env i e =
     \<lparr>response = FALLBACK_RESPONSE env, sources = [], context_found = False,
      result_intent = i, conversational = None, planned = None,
      result_plan = None, validation = None, result_error = e\<rparr>"

definition validation_meta_of :: "verdict \<Rightarrow> int \<Rightarrow> validation_meta" where
  "validation_meta_of v retry_count =
     \<lparr>val_confidence = confidence v, val_retry_count = retry_count,
      val_issues = issues v, val_is_valid = is_valid v\<rparr>"

text \<open>Step 3, the planning branch.\<close>

definition planned_response :: "env \<Rightarrow> string \<Rightarrow> string \<Rightarrow> intent \<Rightarrow> string option \<Rightarrow> rag_result io" where
  "planned_response env query processed_query i session_id =
     and_then (call (\<lambda>t. create_plan env t processed_query i session_id) (CreatePlan processed_query))
       (\<lambda>p. and_then (call (\<lambda>t. execute_plan env t p session_id) (ExecutePlan session_id))
          (\<lambda>plan_result. and_then (validate_response env query (fst plan_result) [])
             (\<lambda>v. ret \<lparr>response = fst plan_result, sources = [],
                       context_found = snd plan_result, result_intent = Some i,
                       conversational = Some False, planned = Some True,
                       result_plan = Some p,
                       validation = Some (validation_meta_of v 0),
                       result_error = None\<rparr>)))"

text \<open>Step 10: the sources returned and the context of the prompt.\<close>

definition source_of :: "doc \<Rightarrow> source" where
  "source_of d =
     \<lparr>src_id = doc_id d,
      src_content = (if length (content d) > 200 then take 200 (content d) @ ''...''
                     else content d),
      src_similarity = similarity d\<rparr>"

definition build_context :: "doc list \<Rightarrow> string" where
  "build_context docs =
     join [CHR 0x0A, CHR 0x0A]
       (map (\<lambda>(i, d). ''[Source '' @ str_nat i @ ''] '' @ content d)
          (zip [1 ..< Suc (length docs)] docs))"

text \<open>Step 11: the history of the prompt.\<close>

definition history_for_prompt :: "env \<Rightarrow> string option \<Rightarrow> bool \<Rightarrow> string io" where
  "history_for_prompt env session_id include_history =
     (if include_history \<and> session_id \<noteq> None \<and> session_id \<noteq> Some [] then
        and_then
          (call (\<lambda>t. get_conversation_history env t (the session_id) 5)
             (History (the session_id) 5))
          (\<lambda>h. call (\<lambda>t. format_history_for_llm env t h) FormatHistory)
      else ret ''No previous conversation.'')"

text \<open>
  Step 15, the loop \<open>while not validation["is_valid"] and validation["retry_recommended"]
  and retry_count < max_retries\<close>. The state of the loop is the response, its sources,
  the verdict and the count.
\<close>

function retry_loop ::
  "pipeline \<Rightarrow> env \<Rightarrow> string \<Rightarrow> real \<Rightarrow> int \<Rightarrow> string \<Rightarrow> source list \<Rightarrow> verdict \<Rightarrow> int \<Rightarrow>
     (string \<times> source list \<times> verdict \<times> int) io" where
  "retry_loop rag env query threshold max_retries response_text srcs v retry_count w =
     (if \<not> is_valid v \<and> retry_recommended v \<and> retry_count < max_retries then
        (case and_then (log_event (LogRetry (retry_count + 1) max_retries))
                (\<lambda>_. retry_with_adjustment rag query (suggested_adjustment v) threshold) w of
           (Ret retry_response, w1) \<Rightarrow>
             (case validate_response env query (response retry_response)
                     (sources retry_response) w1 of
                (Ret v', w2) \<Rightarrow>
                  retry_loop rag env query threshold max_retries (response retry_response)
                    (sources retry_response) v' (retry_count + 1) w2
              | (Raise e, w2) \<Rightarrow> (Raise e, w2)
              | (OutOfFuel, w2) \<Rightarrow> (OutOfFuel, w2))
         | (Raise e, w1) \<Rightarrow> (Raise e, w1)
         | (OutOfFuel, w1) \<Rightarrow> (OutOfFuel, w1))
      else (Ret (response_text, srcs, v, retry_count), w))"
  by pat_completeness auto
termination
  by (relation "measure (\<lambda>(rag, env, query, threshold, max_retries, response_text, srcs, v,
        retry_count, w). nat (max_retries - retry_count))") auto

text \<open>Steps 4 to 16, the retrieval and generation path.\<close>

definition rag_path ::
  "pipeline \<Rightarrow> env \<Rightarrow> string \<Rightarrow> string \<Rightarrow> intent \<Rightarrow> string option \<Rightarrow> bool \<Rightarrow> int \<Rightarrow> rag_result io" where
  "rag_path rag env query processed_query i session_id include_history max_retries =
     and_then (call (\<lambda>t. get_embedding env t processed_query) (Embed processed_query))
       (\<lambda>query_embedding. and_then get_cfg
       (\<lambda>st.
          let query_lower = lower processed_query;
              threshold = select_threshold st query_lower;
              top_k = search_top_k st query_lower
          in and_then
               (call (\<lambda>t. similarity_search env t query_embedding top_k threshold)
                  (Search top_k threshold))
       (\<lambda>found. and_then get_cfg
       (\<lambda>st'.
          let relevant_docs = rerank st' query_lower found in
          if relevant_docs = [] then ret (fallback_result env (Some i) None)
          else
            let srcs = map source_of relevant_docs;
                context = build_context relevant_docs
            in and_then (history_for_prompt env session_id include_history)
       (\<lambda>history_text.
          let prompt = RAG_SYSTEM_PROMPT env context history_text query in
          and_then (call (\<lambda>t. generate_response env t prompt None None)
                      (Generate prompt None None))
       (\<lambda>response_text. and_then (validate_response env query response_text srcs)
       (\<lambda>v. and_then
               (retry_loop rag env query threshold max_retries response_text srcs v 0)
       (\<lambda>(response_text', srcs', v', retry_count).
          ret \<lparr>response = response_text', sources = srcs', context_found = True,
               result_intent = Some i, conversational = Some False, planned = None,
               result_plan = None,
               validation = Some (validation_meta_of v' retry_count),
               result_error = None\<rparr>))))))))"

text \<open>The body of \<open>get_rag_response\<close>; \<open>rag\<close> is the pipeline that a retry calls.\<close>

definition rag_body :: "pipeline \<Rightarrow> env \<Rightarrow> pipeline" where
  "rag_body rag env query session_id include_history max_retries =
     try_except
       (let processed_query = preprocess_query query in
        and_then
          (call (\<lambda>t. classify_intent_hybrid env t processed_query) (Classify processed_query))
          (\<lambda>(i, confidence).
        and_then (call (\<lambda>t. get_intent_metadata env t i query) (Metadata i query))
          (\<lambda>metadata.
             if \<not> should_use_rag env i then
               get_conversational_response env i processed_query session_id
             else
               and_then
                 (call (\<lambda>t. needs_planning env t processed_query i) (NeedsPlanning processed_query))
                 (\<lambda>planning.
                    if planning then planned_response env query processed_query i session_id
                    else rag_path rag env query processed_query i session_id
                           include_history max_retries))))
       (\<lambda>e. ret (fallback_result env None (Some e)))"

text \<open>
  \<open>get_rag_response\<close> calls itself through \<open>retry_with_adjustment\<close>; the first argument
  bounds the nesting of these calls, and a run that needs more is \<open>OutOfFuel\<close>.
\<close>

primrec get_rag_response :: "nat \<Rightarrow> env \<Rightarrow> pipeline" where
  "get_rag_response 0 env = (\<lambda>query session_id include_history max_retries w. (OutOfFuel, w))"
| "get_rag_response (Suc n) env = rag_body (get_rag_response n env) env"

section \<open>Observations on traces, and an environment to run the pipeline in\<close>

definition is_history_event :: "event \<Rightarrow> bool" where
  "is_history_event ev = (case ev of History _ _ \<Rightarrow> True | _ \<Rightarrow> False)"

definition is_retry_event :: "event \<Rightarrow> bool" where
  "is_retry_event ev = (case ev of LogRetry _ _ \<Rightarrow> True | _ \<Rightarrow> False)"

definition is_search :: "event \<Rightarrow> bool" where
  "is_search ev = (case ev of Search _ _ \<Rightarrow> True | _ \<Rightarrow> False)"

text \<open>The validator is the LLM call with \<open>max_tokens=200\<close>.\<close>

definition is_validation_call :: "event \<Rightarrow> bool" where
  "is_validation_call ev =
     (case ev of Generate _ max_tokens _ \<Rightarrow> max_tokens = Some 200 | _ \<Rightarrow> False)"

text \<open>A computation whose events are no fetches of the conversation history.\<close>

definition quiet :: "'a io \<Rightarrow> bool" where
  "quiet m \<longleftrightarrow>
     (\<forall>w. \<exists>es. trace (snd (m w)) = trace w @ es \<and> list_all (\<lambda>ev. \<not> is_history_event ev) es)"

text \<open>The adjustment texts that \<open>retry_with_adjustment\<close> knows.\<close>

definition known_adjustment :: "string \<Rightarrow> bool" where
  "known_adjustment adjustment \<longleftrightarrow>
     contains ''lower threshold'' (lower adjustment) \<or>
     contains ''expand search'' (lower adjustment) \<or>
     contains ''more documents'' (lower adjustment) \<or>
     contains ''increase top_k'' (lower adjustment) \<or>
     contains ''rephrase'' (lower adjustment)"

text \<open>
  Collaborators for a run: every query is a QUESTION that needs no planning, the search
  finds one snippet, the LLM answers, and the validator rejects the answer (asking for a
  retry, with an adjustment text that names no known adjustment) as long as fewer than
  \<open>cutoff\<close> external calls have been made, and accepts it afterwards.
\<close>

definition rejecting_text :: string where
  "rejecting_text = ''ANSWERS_QUESTION: no'' @ [CHR 0x0A] @ ''RETRY: yes'' @ [CHR 0x0A] @
     ''ADJUSTMENT: try again''"

definition demo_env :: "nat \<Rightarrow> env" where
  "demo_env cutoff =
     \<lparr>classify_intent_hybrid = (\<lambda>t q. Inr (QUESTION, 0.9)),
      get_intent_metadata = (\<lambda>t i q. Inr ()),
      should_use_rag = (\<lambda>i. i = QUESTION),
      needs_planning = (\<lambda>t q i. Inr False),
      create_plan = (\<lambda>t q i s. Inl (Failure ''no planner'')),
      execute_plan = (\<lambda>t p s. Inl (Failure ''no planner'')),
      get_embedding = (\<lambda>t q. Inr [0.1]),
      similarity_search = (\<lambda>t e k thr.
         Inr [\<lparr>doc_id = ''d1'', content = ''We offer consulting.'', similarity = 0.6\<rparr>]),
      get_conversation_history = (\<lambda>t sid lim. Inr [(''user'', ''hello'')]),
      format_history_for_llm = (\<lambda>t h. Inr ''user: hello''),
      generate_response = (\<lambda>t prompt max_tokens temperature.
         if max_tokens = Some 200 then
           (if t < cutoff then Inr rejecting_text else Inr ''ANSWERS_QUESTION: yes'')
         else Inr ''an answer''),
      random_index = (\<lambda>t. 0),
      RAG_SYSTEM_PROMPT = (\<lambda>context history query. query),
      VALIDATION_PROMPT = (\<lambda>query resp srcs. resp),
      CONVERSATIONAL_WITH_CONTEXT_PROMPT = (\<lambda>query history. query),
      FALLBACK_RESPONSE = ''Sorry.'',
      GREETING_RESPONSES = [''Hello!''],
      FAREWELL_RESPONSES = [''Bye!''],
      GRATITUDE_RESPONSES = [''Welcome!''],
      HELP_RESPONSE = ''Ask me.'',
      CHIT_CHAT_RESPONSES = [''default'' \<mapsto> [''Happy to chat.'']],
      UNCLEAR_QUERY_RESPONSE = ''Unclear.'',
      OUT_OF_SCOPE_RESPONSE = ''Out of scope.'',
      CLARIFICATION_RESPONSES = [''default'' \<mapsto> [''Could you say more?'']]\<rparr>"

text \<open>The same collaborators with a conversation store that fails, and with an LLM
  that fails on the short context-aware call (\<open>max_tokens=100\<close>).\<close>

definition history_down_env :: env where
  "history_down_env =
     (demo_env 0)\<lparr>get_conversation_history :=
        (\<lambda>t sid lim. Inl (Failure ''conversation store unavailable''))\<rparr>"

definition llm_down_env :: env where
  "llm_down_env =
     (demo_env 0)\<lparr>generate_response :=
        (\<lambda>t prompt max_tokens temperature.
           if max_tokens = Some 100 then Inl (Failure ''LLM unavailable'') else Inr ''an answer'')\<rparr>"

definition demo_world :: world where
  "demo_world =
     \<lparr>cfg = \<lparr>RAG_SIMILARITY_THRESHOLD = 0.5, RAG_TOP_K = 8\<rparr>, tick = 0, trace = []\<rparr>"

section \<open>Properties of parse\_validation\_response\<close>

subsection \<open>What a line can do to the verdict\<close>

lemma startswith_hd: "startswith l (a # p) \<Longrightarrow> startswith l (b # q) \<Longrightarrow> a = b"
  by (cases l) (auto simp: startswith_def)

lemma float_digits_dots_nonneg: "float_digits_dots m = Some c \<Longrightarrow> 0 \<le> c"
  by (auto simp: float_digits_dots_def Let_def split: if_splits)

lemma parsed_confidence_nonneg: "parsed_confidence l = Some c \<Longrightarrow> 0 \<le> c"
  by (auto simp: parsed_confidence_def float_digits_dots_nonneg split: option.splits)

lemma parse_line_is_valid:
  "is_valid (parse_line v l) \<longleftrightarrow> is_valid v \<and> \<not> negative_signal l"
  by (auto simp: parse_line_def negative_signal_def split: option.splits dest: startswith_hd)

lemma foldl_parse_line_is_valid:
  "is_valid (foldl parse_line v ls) \<longleftrightarrow> is_valid v \<and> (\<forall>l\<in>set ls. \<not> negative_signal l)"
  by (induction ls arbitrary: v) (auto simp: parse_line_is_valid)

lemma parse_line_unrecognized: "\<not> recognized l \<Longrightarrow> parse_line v l = v"
  by (simp add: parse_line_def recognized_def)

lemma foldl_parse_line_unrecognized:
  "\<forall>l\<in>set ls. \<not> recognized l \<Longrightarrow> foldl parse_line v ls = v"
  by (induction ls arbitrary: v) (simp_all add: parse_line_unrecognized)

lemmas text_eval =
  stripped_lines_def strip_def is_space_def startswith_def
  search_digits_dots_def is_digit_or_dot_def is_digit_def
  float_digits_dots_def digits_val_def digit_val_def parsed_confidence_def

text \<open>
  C4. The parse starts from the permissive verdict and ends invalid exactly when some
  line carries a negative signal: an \<open>ANSWERS_QUESTION:\<close> or \<open>IS_GROUNDED:\<close> line
  without "yes", a \<open>HAS_HALLUCINATION:\<close> line with "yes", or a \<open>CONFIDENCE:\<close> line whose
  parsed value is below 0.7. A text none of whose lines starts with a field name yields
  the default verdict unchanged (valid, confidence 1.0, no issues, no retry).
\<close>

theorem parse_validation_response_demotion:
  "(is_valid (parse_validation_response text) \<longleftrightarrow>
      \<not> (\<exists>l\<in>set (stripped_lines text). negative_signal l)) \<and>
   ((\<forall>l\<in>set (stripped_lines text). \<not> recognized l) \<longrightarrow>
      parse_validation_response text = default_verdict \<and>
      is_valid (parse_validation_response text) \<and>
      confidence (parse_validation_response text) = 1.0 \<and>
      issues (parse_validation_response text) = [] \<and>
      \<not> retry_recommended (parse_validation_response text))"
  by (simp add: parse_validation_response_def foldl_parse_line_is_valid
      foldl_parse_line_unrecognized default_verdict_def)

theorem parse_validation_response_demotion_witness:
  "parse_validation_response ''This is not the expected format at all!'' = default_verdict \<and>
   is_valid (parse_validation_response ''This is not the expected format at all!'') \<and>
   confidence (parse_validation_response ''This is not the expected format at all!'') = 1.0 \<and>
   \<not> is_valid (parse_validation_response ''CONFIDENCE: 0.5'') \<and>
   is_valid (parse_validation_response ''ANSWERS_QUESTION: yes'')"
proof -
  have none: "\<forall>l\<in>set (stripped_lines ''This is not the expected format at all!''). \<not> recognized l"
    by code_simp
  have low: "\<exists>l\<in>set (stripped_lines ''CONFIDENCE: 0.5''). negative_signal l"
    by code_simp
  have yes: "\<not> (\<exists>l\<in>set (stripped_lines ''ANSWERS_QUESTION: yes''). negative_signal l)"
    by code_simp
  show ?thesis
    using parse_validation_response_demotion [of "''This is not the expected format at all!''"]
      parse_validation_response_demotion [of "''CONFIDENCE: 0.5''"]
      parse_validation_response_demotion [of "''ANSWERS_QUESTION: yes''"]
      none low yes
    by blast
qed

text \<open>
  C8 as stated fails: the number after \<open>CONFIDENCE:\<close> is stored as parsed, with no
  clamping, so "CONFIDENCE: 95" yields the confidence 95.
\<close>

theorem parse_confidence_above_one:
  "\<not> confidence (parse_validation_response ''CONFIDENCE: 95'') \<le> 1"
  by code_simp

text \<open>
  C8, amended. The confidence of the verdict is never negative (the regular expression
  passes no sign to \<open>float\<close>), and it is at most 1 whenever every number parsed from a
  \<open>CONFIDENCE:\<close> line is at most 1.
\<close>

lemma parse_line_confidence:
  "confidence (parse_line v l) =
     (if startswith l ''CONFIDENCE:'' then
        (case parsed_confidence l of None \<Rightarrow> confidence v | Some c \<Rightarrow> c)
      else confidence v)"
  by (auto simp: parse_line_def split: option.splits dest: startswith_hd)

lemma foldl_parse_line_confidence_bounds:
  "0 \<le> confidence v \<Longrightarrow> 0 \<le> confidence (foldl parse_line v ls)"
  "confidence v \<le> 1 \<Longrightarrow>
   \<forall>l\<in>set ls. \<forall>c. startswith l ''CONFIDENCE:'' \<longrightarrow> parsed_confidence l = Some c \<longrightarrow> c \<le> 1 \<Longrightarrow>
   confidence (foldl parse_line v ls) \<le> 1"
proof (induction ls arbitrary: v)
  case Nil
  { case 1 then show ?case by simp }
  { case 2 then show ?case by simp }
next
  case (Cons l ls)
  { case 1
    then have "0 \<le> confidence (parse_line v l)"
      by (auto simp: parse_line_confidence parsed_confidence_nonneg split: option.splits)
    then show ?case using Cons.IH(1) by simp }
  { case 2
    then have "confidence (parse_line v l) \<le> 1"
      by (auto simp: parse_line_confidence split: option.splits)
    then show ?case using Cons.IH(2) 2(2) by simp }
qed

theorem parse_confidence_range:
  "0 \<le> confidence (parse_validation_response text) \<and>
   ((\<forall>l\<in>set (stripped_lines text). \<forall>c.
        startswith l ''CONFIDENCE:'' \<longrightarrow> parsed_confidence l = Some c \<longrightarrow> c \<le> 1) \<longrightarrow>
      confidence (parse_validation_response text) \<le> 1)"
  using foldl_parse_line_confidence_bounds [of default_verdict "stripped_lines text"]
  by (simp add: parse_validation_response_def default_verdict_def)

theorem parse_confidence_range_witness:
  "0 \<le> confidence (parse_validation_response ''CONFIDENCE: 0.9'') \<and>
   confidence (parse_validation_response ''CONFIDENCE: 0.9'') \<le> 1 \<and>
   parsed_confidence ''CONFIDENCE: 0.9'' = Some (9 / 10)"
proof -
  have tokens: "\<forall>l\<in>set (stripped_lines ''CONFIDENCE: 0.9''). \<forall>c.
      startswith l ''CONFIDENCE:'' \<longrightarrow> parsed_confidence l = Some c \<longrightarrow> c \<le> 1"
    by (simp add: text_eval)
  have tok: "parsed_confidence ''CONFIDENCE: 0.9'' = Some (9 / 10)"
    by code_simp
  show ?thesis
    using parse_confidence_range [of "''CONFIDENCE: 0.9''"] tokens tok by blast
qed

section \<open>Properties of apply\_threshold\_adjustments\<close>

lemma clamp_param_in_band:
  "param \<in> set banded \<Longrightarrow> clamp_param param v = Inr sv \<Longrightarrow> in_band param sv"
  by (cases v)
     (auto simp: banded_def clamp_param_def in_band_def py_max_def py_min_def num_lt_def
        as_float_def split: if_splits sum.splits)

lemma apply_adjustment_band:
  "param \<in> set banded \<Longrightarrow>
   apply_adjustment pf u pa param = u param \<or>
   (\<exists>v. apply_adjustment pf u pa param = Some v \<and> in_band param v)"
  by (auto simp: apply_adjustment_def clamp_param_in_band split: prod.splits option.splits sum.splits)

lemma apply_adjustment_skip:
  "fst pa = param \<longrightarrow> \<not> parseable pf (snd pa) \<Longrightarrow> apply_adjustment pf u pa param = u param"
  by (auto simp: apply_adjustment_def parseable_def split: prod.splits option.splits sum.splits)

lemma foldl_apply_adjustment_band:
  "param \<in> set banded \<Longrightarrow>
   foldl (apply_adjustment pf) u adjs param = u param \<or>
   (\<exists>v. foldl (apply_adjustment pf) u adjs param = Some v \<and> in_band param v)"
proof (induction adjs rule: rev_induct)
  case Nil
  then show ?case by simp
next
  case (snoc pa adjs)
  then show ?case
    using apply_adjustment_band [of param pf "foldl (apply_adjustment pf) u adjs" pa]
    by auto
qed

lemma foldl_apply_adjustment_skip:
  "\<forall>pa\<in>set adjs. fst pa = param \<longrightarrow> \<not> parseable pf (snd pa) \<Longrightarrow>
   foldl (apply_adjustment pf) u adjs param = u param"
  by (induction adjs arbitrary: u) (simp_all add: apply_adjustment_skip)

lemma apply_adjustment_dom: "dom u \<subseteq> dom (apply_adjustment pf u pa)"
  by (auto simp: apply_adjustment_def split: prod.splits option.splits sum.splits)

lemma foldl_apply_adjustment_dom: "dom u \<subseteq> dom (foldl (apply_adjustment pf) u adjs)"
proof (induction adjs arbitrary: u)
  case Nil
  then show ?case by simp
next
  case (Cons pa adjs)
  have "dom u \<subseteq> dom (apply_adjustment pf u pa)"
    by (rule apply_adjustment_dom)
  also have "\<dots> \<subseteq> dom (foldl (apply_adjustment pf) (apply_adjustment pf u pa) adjs)"
    by (rule Cons.IH)
  finally show ?case by simp
qed

lemma map_add_absorb: "dom m \<subseteq> dom n \<Longrightarrow> m ++ n = n"
  by (rule ext) (auto simp: map_add_def split: option.splits)

text \<open>
  C5. For each of the four banded parameters, the value that
  \<open>apply_threshold_adjustments\<close> returns and commits to \<open>CURRENT_THRESHOLDS\<close> is either
  the one the parameter had, or a value inside the parameter's safety band, whatever
  number \<open>float\<close> read after the arrow (negative, huge, infinite or NaN); it is the one
  the parameter had when every adjustment text for the parameter is unparseable (no
  arrow, or \<open>float\<close> raises).
\<close>

theorem apply_threshold_adjustments_bands:
  "param \<in> set banded \<Longrightarrow>
   (fst (apply_threshold_adjustments pf cur adjs) param = cur param \<or>
    (\<exists>v. fst (apply_threshold_adjustments pf cur adjs) param = Some v \<and> in_band param v)) \<and>
   ((\<forall>pa\<in>set adjs. fst pa = param \<longrightarrow> \<not> parseable pf (snd pa)) \<longrightarrow>
      fst (apply_threshold_adjustments pf cur adjs) param = cur param) \<and>
   snd (apply_threshold_adjustments pf cur adjs) = fst (apply_threshold_adjustments pf cur adjs)"
  using foldl_apply_adjustment_band [of param pf cur adjs]
    foldl_apply_adjustment_skip [of adjs param pf cur]
    map_add_absorb [OF foldl_apply_adjustment_dom [of cur pf adjs]]
  by (simp add: apply_threshold_adjustments_def Let_def)

theorem apply_threshold_adjustments_bands_witness:
  "''top_k'' \<in> set banded \<and> ''temperature'' \<in> set banded \<and>
   fst (apply_threshold_adjustments float_decimal CURRENT_THRESHOLDS_init example_adjustments)
     ''top_k'' = Some (PInt 10) \<and>
   in_band ''top_k'' (PInt 10) \<and>
   fst (apply_threshold_adjustments float_decimal CURRENT_THRESHOLDS_init example_adjustments)
     ''temperature'' = Some (PFloat (Fin 0.7)) \<and>
   snd (apply_threshold_adjustments float_decimal CURRENT_THRESHOLDS_init example_adjustments) =
   fst (apply_threshold_adjustments float_decimal CURRENT_THRESHOLDS_init example_adjustments)"
proof -
  have b: "''top_k'' \<in> set banded" "''temperature'' \<in> set banded"
    by (simp_all add: banded_def)
  have k: "fst (apply_threshold_adjustments float_decimal CURRENT_THRESHOLDS_init
      example_adjustments) ''top_k'' = Some (PInt 10)"
    by code_simp
  have k0: "CURRENT_THRESHOLDS_init ''top_k'' = Some (PInt 5)"
    "CURRENT_THRESHOLDS_init ''temperature'' = Some (PFloat (Fin 0.7))"
    by (simp_all add: CURRENT_THRESHOLDS_init_def)
  have t: "\<forall>pa\<in>set example_adjustments.
      fst pa = ''temperature'' \<longrightarrow> \<not> parseable float_decimal (snd pa)"
    by code_simp
  show ?thesis
    using apply_threshold_adjustments_bands [OF b(1), of float_decimal CURRENT_THRESHOLDS_init
        example_adjustments]
      apply_threshold_adjustments_bands [OF b(2), of float_decimal CURRENT_THRESHOLDS_init
        example_adjustments]
      b k k0 t
    by auto
qed

section \<open>Properties of the pure steps of rag\_service\<close>

subsection \<open>The clarification category\<close>

text \<open>What the five loops compute: the last matching group in source order wins.\<close>

lemma clarification_key_last_match:
  "clarification_key query =
     (let q = strip (lower query) in
      if any_keyword_in [''hours'', ''schedule'', ''availability''] q then ''hours''
      else if any_keyword_in [''services'', ''service''] q then ''services''
      else if any_keyword_in [''contact'', ''phone'', ''address'', ''location''] q then ''contact''
      else if any_keyword_in [''pricing'', ''price'', ''cost'', ''payment'', ''fee''] q
        then ''pricing''
      else if any_keyword_in [''email''] q then ''email''
      else ''default'')"
  by (simp add: clarification_key_def Let_def)

text \<open>
  C1. The claim gives the email group priority over the pricing group. On the query
  "email and pricing" both groups match, and the code answers with the pricing
  clarification: the \<open>break\<close> ends the email loop only, and the pricing loop assigns
  again.
\<close>

theorem clarification_key_email_and_pricing:
  "clarification_key ''email and pricing'' = ''pricing'' \<and>
   any_keyword_in [''email''] (strip (lower ''email and pricing'')) \<and>
   clarification_key ''email and pricing'' \<noteq> ''email''"
  by code_simp

subsection \<open>Re-ranking\<close>

lemma cap1_bounds: "0 \<le> s \<Longrightarrow> s \<le> 1 \<Longrightarrow> 1 \<le> f \<Longrightarrow> s \<le> cap1 (s * f) \<and> cap1 (s * f) \<le> 1"
proof -
  assume a: "0 \<le> s" "s \<le> 1" "1 \<le> f"
  have "s * 1 \<le> s * f" using a by (intro mult_left_mono) auto
  then show ?thesis using a by (auto simp: cap1_def)
qed

lemma boost_doc_bounds:
  assumes "0 \<le> similarity d" "similarity d \<le> 1"
  shows "similarity d \<le> similarity (boost_doc q d) \<and> similarity (boost_doc q d) \<le> 1"
proof -
  define s1 where "s1 = (if needs_email q \<and> has_email (lower (content d)) then cap1 (similarity d * 1.5) else similarity d)"
  define s2 where "s2 = (if needs_phone q \<and> has_phone (lower (content d)) then cap1 (s1 * 1.3) else s1)"
  define s3 where "s3 = (if needs_location q \<and> has_location (lower (content d)) then cap1 (s2 * 1.6) else s2)"
  have b1: "similarity d \<le> s1 \<and> s1 \<le> 1"
    using assms cap1_bounds [of "similarity d" "1.5"] by (simp add: s1_def)
  then have b2: "s1 \<le> s2 \<and> s2 \<le> 1"
    using assms cap1_bounds [of s1 "1.3"] by (simp add: s2_def)
  then have b3: "s2 \<le> s3 \<and> s3 \<le> 1"
    using assms b1 cap1_bounds [of s2 "1.6"] by (simp add: s3_def)
  have "similarity (boost_doc q d) = s3"
    by (simp add: boost_doc_def Let_def s1_def s2_def s3_def)
  then show ?thesis using b1 b2 b3 by linarith
qed

lemma boost_doc_unboosted: "\<not> boosted q d \<Longrightarrow> boost_doc q d = d"
  by (auto simp: boosted_def boost_doc_def Let_def)

lemma sort_by_similarity_desc:
  "i < j \<Longrightarrow> j < length (sort_by_similarity ds) \<Longrightarrow>
   similarity (sort_by_similarity ds ! j) \<le> similarity (sort_by_similarity ds ! i)"
proof -
  assume a: "i < j" "j < length (sort_by_similarity ds)"
  have "sorted (map (\<lambda>d. - similarity d) (sort_by_similarity ds))"
    by (simp add: sort_by_similarity_def)
  then have "map (\<lambda>d. - similarity d) (sort_by_similarity ds) ! i
      \<le> map (\<lambda>d. - similarity d) (sort_by_similarity ds) ! j"
    using a by (intro sorted_nth_mono) auto
  then show ?thesis using a by simp
qed

lemma slice_to_take: "\<exists>n. slice_to k xs = take n xs"
  by (auto simp: slice_to_def)

lemma take_sorted_order:
  assumes "x \<in> set ds" "y \<in> set ds" "similarity y < similarity x"
  shows "(\<forall>i j. i < length (take n (sort_by_similarity ds)) \<and> j < length (take n (sort_by_similarity ds)) \<and>
            take n (sort_by_similarity ds) ! i = y \<and> take n (sort_by_similarity ds) ! j = x \<longrightarrow> j < i) \<and>
         (y \<in> set (take n (sort_by_similarity ds)) \<longrightarrow> x \<in> set (take n (sort_by_similarity ds)))"
proof -
  let ?S = "sort_by_similarity ds"
  have ord: "j < i" if "i < length ?S" "j < length ?S" "?S ! i = y" "?S ! j = x" for i j
  proof (rule ccontr)
    assume "\<not> j < i"
    then have "i < j \<or> i = j" by auto
    then show False
    proof
      assume "i < j"
      then have "similarity (?S ! j) \<le> similarity (?S ! i)"
        using that by (intro sort_by_similarity_desc) auto
      then show False using that assms by simp
    next
      assume "i = j"
      then show False using that assms by auto
    qed
  qed
  have p1: "\<forall>i j. i < length (take n ?S) \<and> j < length (take n ?S) \<and>
            take n ?S ! i = y \<and> take n ?S ! j = x \<longrightarrow> j < i"
    using ord by auto
  have p2: "x \<in> set (take n ?S)" if "y \<in> set (take n ?S)"
  proof -
    from that obtain i where i: "i < length (take n ?S)" "take n ?S ! i = y"
      by (auto simp: in_set_conv_nth)
    have "x \<in> set ?S" using assms by (simp add: sort_by_similarity_def)
    then obtain j where j: "j < length ?S" "?S ! j = x"
      by (auto simp: in_set_conv_nth)
    have "j < i" using ord [of i j] i j by auto
    then have "j < length (take n ?S)" "take n ?S ! j = x" using i j by auto
    then show ?thesis by (metis nth_mem)
  qed
  show ?thesis using p1 p2 by blast
qed

text \<open>
  C6. For a factual query and snippets whose similarities lie in [0,1]: every similarity
  after re-ranking lies in [0,1]; a snippet that received no boost and has a strictly
  lower original similarity than another snippet never stands before that other one in
  the result, and is never kept when the other one is cut off (whether or not the other
  one was boosted); the result is the descending sort of the boosted list cut to
  \<open>RAG_TOP_K\<close>, while the search had been asked for twice as many.
\<close>

theorem rerank_properties:
  assumes "is_factual_query q"
    and "\<forall>d\<in>set docs. 0 \<le> similarity d \<and> similarity d \<le> 1"
  shows "(\<forall>d\<in>set (rerank st q docs). 0 \<le> similarity d \<and> similarity d \<le> 1) \<and>
    (\<forall>x\<in>set docs. \<forall>y\<in>set docs. \<not> boosted q y \<and> similarity y < similarity x \<longrightarrow>
       (\<forall>i j. i < length (rerank st q docs) \<and> j < length (rerank st q docs) \<and>
          rerank st q docs ! i = boost_doc q y \<and> rerank st q docs ! j = boost_doc q x \<longrightarrow> j < i) \<and>
       (boost_doc q y \<in> set (rerank st q docs) \<longrightarrow> boost_doc q x \<in> set (rerank st q docs))) \<and>
    (0 \<le> RAG_TOP_K st \<longrightarrow>
       rerank st q docs = take (nat (RAG_TOP_K st)) (sort_by_similarity (map (boost_doc q) docs)) \<and>
       int (length (rerank st q docs)) \<le> RAG_TOP_K st) \<and>
    search_top_k st q = RAG_TOP_K st * 2"
proof -
  let ?B = "map (boost_doc q) docs"
  obtain n where n: "rerank st q docs = take n (sort_by_similarity ?B)"
  proof (cases "docs = []")
    case True
    then have "rerank st q docs = take 0 (sort_by_similarity ?B)" by (simp add: rerank_def)
    then show ?thesis using that by blast
  next
    case False
    then show ?thesis using that slice_to_take [of "RAG_TOP_K st" "sort_by_similarity ?B"] assms(1)
      by (auto simp: rerank_def)
  qed
  have bnd: "0 \<le> similarity d \<and> similarity d \<le> 1" if "d \<in> set ?B" for d
  proof -
    from that obtain d0 where d0: "d0 \<in> set docs" "d = boost_doc q d0" by auto
    then have "0 \<le> similarity d0" "similarity d0 \<le> 1" using assms(2) by auto
    then show ?thesis using boost_doc_bounds [of d0 q] d0 by auto
  qed
  have a: "\<forall>d\<in>set (rerank st q docs). 0 \<le> similarity d \<and> similarity d \<le> 1"
  proof
    fix d assume "d \<in> set (rerank st q docs)"
    then have "d \<in> set (sort_by_similarity ?B)" using n by (auto dest: in_set_takeD)
    then have "d \<in> set ?B" by (simp add: sort_by_similarity_def)
    then show "0 \<le> similarity d \<and> similarity d \<le> 1" by (rule bnd)
  qed
  have b: "\<forall>x\<in>set docs. \<forall>y\<in>set docs. \<not> boosted q y \<and> similarity y < similarity x \<longrightarrow>
       (\<forall>i j. i < length (rerank st q docs) \<and> j < length (rerank st q docs) \<and>
          rerank st q docs ! i = boost_doc q y \<and> rerank st q docs ! j = boost_doc q x \<longrightarrow> j < i) \<and>
       (boost_doc q y \<in> set (rerank st q docs) \<longrightarrow> boost_doc q x \<in> set (rerank st q docs))"
  proof (intro ballI impI)
    fix x y assume xy: "x \<in> set docs" "y \<in> set docs" "\<not> boosted q y \<and> similarity y < similarity x"
    have "similarity (boost_doc q y) = similarity y" using xy by (simp add: boost_doc_unboosted)
    moreover have "similarity x \<le> similarity (boost_doc q x)"
      using assms(2) xy(1) boost_doc_bounds by blast
    ultimately have lt: "similarity (boost_doc q y) < similarity (boost_doc q x)" using xy by linarith
    have mem: "boost_doc q x \<in> set ?B" "boost_doc q y \<in> set ?B" using xy by auto
    show "(\<forall>i j. i < length (rerank st q docs) \<and> j < length (rerank st q docs) \<and>
          rerank st q docs ! i = boost_doc q y \<and> rerank st q docs ! j = boost_doc q x \<longrightarrow> j < i) \<and>
       (boost_doc q y \<in> set (rerank st q docs) \<longrightarrow> boost_doc q x \<in> set (rerank st q docs))"
      unfolding n using take_sorted_order [OF mem lt, of n] .
  qed
  have c: "0 \<le> RAG_TOP_K st \<longrightarrow>
       rerank st q docs = take (nat (RAG_TOP_K st)) (sort_by_similarity ?B) \<and>
       int (length (rerank st q docs)) \<le> RAG_TOP_K st"
    using assms(1) by (auto simp: rerank_def slice_to_def sort_by_similarity_def)
  have d: "search_top_k st q = RAG_TOP_K st * 2"
    using assms(1) by (simp add: search_top_k_def)
  show ?thesis using a b c d by blast
qed

theorem rerank_properties_witness:
  "is_factual_query ''what is your email'' \<and>
   list_all (\<lambda>d. 0 \<le> similarity d \<and> similarity d \<le> 1) example_docs \<and>
   list_all (\<lambda>d. 0 \<le> similarity d \<and> similarity d \<le> 1)
     (rerank example_settings ''what is your email'' example_docs) \<and>
   rerank example_settings ''what is your email'' example_docs =
     take 2 (sort_by_similarity (map (boost_doc ''what is your email'') example_docs)) \<and>
   map doc_id (rerank example_settings ''what is your email'' example_docs) = [''d'', ''b''] \<and>
   search_top_k example_settings ''what is your email'' = 4"
proof -
  have f: "is_factual_query ''what is your email''"
    by code_simp
  have r: "\<forall>d\<in>set example_docs. 0 \<le> similarity d \<and> similarity d \<le> 1"
    by (simp add: example_docs_def)
  have k: "0 \<le> RAG_TOP_K example_settings" "nat (RAG_TOP_K example_settings) = 2"
    "RAG_TOP_K example_settings * 2 = 4"
    by (simp_all add: example_settings_def)
  have ids: "map doc_id (rerank example_settings ''what is your email'' example_docs) = [''d'', ''b'']"
    by code_simp
  show ?thesis
    using rerank_properties [OF f r, of example_settings] f r k ids
    by (simp add: list_all_iff)
qed

section \<open>preprocess\_query is idempotent\<close>

lemma render_append: "render (a @ b) = render a @ render b"
  by (induction a rule: render.induct) simp_all

lemma render_tokens: "render (tokens s) = s"
proof (induction s)
  case Nil
  show ?case by simp
next
  case (Cons c cs)
  show ?case
  proof (cases "tokens cs")
    case Nil
    then show ?thesis using Cons by auto
  next
    case (Cons t ts)
    then show ?thesis using Cons.IH by (cases t) auto
  qed
qed

lemma wf_tokens: "wf_toks (tokens s)"
proof (induction s)
  case Nil
  show ?case by simp
next
  case (Cons c cs)
  show ?case
  proof (cases "tokens cs")
    case Nil
    then show ?thesis using Cons by auto
  next
    case (Cons t ts)
    then show ?thesis using Cons.IH by (cases t) auto
  qed
qed

lemma wf_drop: "wf_toks ts \<Longrightarrow> wf_toks (drop k ts)"
proof (induction ts arbitrary: k rule: wf_toks.induct)
  case 1
  then show ?case by simp
next
  case (2 c ts)
  then show ?case by (cases k) auto
next
  case (3 w ts)
  then show ?case by (cases k) auto
qed

lemma wf_starts_nonword:
  "wf_toks ts \<Longrightarrow> \<not> starts_with_word ts \<Longrightarrow> render ts = [] \<or> \<not> is_word_char (hd (render ts))"
  by (cases ts rule: starts_with_word.cases) auto

subsection \<open>The scan over a word and over a match\<close>

lemma re_sub_skip:
  "re_sub m r p (length xs) (xs @ rest) =
     re_sub m r (if xs = [] then p else Some (last xs)) 0 rest"
proof (induction xs arbitrary: p)
  case Nil
  show ?case by simp
next
  case (Cons x xs)
  show ?case using Cons.IH [of "Some x"] by simp
qed

lemma re_sub_no_match: "m p (c # cs) = None \<Longrightarrow> re_sub m r p 0 (c # cs) = c # re_sub m r (Some c) 0 cs"
  by simp

lemma re_sub_word_interior:
  assumes "\<And>p s n. m p s = Some n \<Longrightarrow> word_boundary p s"
    and "is_word_char q" and "list_all is_word_char w"
  shows "re_sub m r (Some q) 0 (w @ rest) =
     w @ re_sub m r (Some (if w = [] then q else last w)) 0 rest"
  using assms(2,3)
proof (induction w arbitrary: q)
  case Nil
  show ?case by simp
next
  case (Cons c w)
  have "m (Some q) (c # w @ rest) = None"
  proof (cases "m (Some q) (c # w @ rest)")
    case None
    then show ?thesis .
  next
    case (Some n)
    from assms(1) [OF this] show ?thesis using Cons.prems by (simp add: word_boundary_def)
  qed
  then show ?case using Cons.IH [of c] Cons.prems by simp
qed

lemma corresponds_match:
  "corresponds m tm \<Longrightarrow> m p s = Some n \<Longrightarrow> word_boundary p s \<and> s \<noteq> [] \<and> is_word_char (hd s)"
  unfolding corresponds_def by blast

lemma corresponds_value:
  "corresponds m tm \<Longrightarrow> wf_toks (W w # ts) \<Longrightarrow> nonword_prev p \<Longrightarrow>
   m p (w @ render ts) =
     (case tm w ts of None \<Rightarrow> None | Some k \<Rightarrow> Some (length w + length (render (take k ts))))"
  unfolding corresponds_def by blast

lemma corresponds_rest:
  "corresponds m tm \<Longrightarrow> wf_toks (W w # ts) \<Longrightarrow> tm w ts = Some k \<Longrightarrow>
   k \<le> length ts \<and> \<not> starts_with_word (drop k ts)"
  unfolding corresponds_def by blast

lemma sim:
  "corresponds m tm \<Longrightarrow> wf_toks ts \<Longrightarrow> (starts_with_word ts \<longrightarrow> nonword_prev p) \<Longrightarrow>
     re_sub m (render rep) p 0 (render ts) = render (tok_sub tm rep ts)"
proof (induction tm rep ts arbitrary: p rule: tok_sub.induct)
  case (1 tm rep)
  show ?case by simp
next
  case (2 tm rep c ts)
  have "m p (c # render ts) = None"
  proof (cases "m p (c # render ts)")
    case None
    then show ?thesis .
  next
    case (Some n)
    from corresponds_match [OF "2.prems"(1) this] show ?thesis using "2.prems" by simp
  qed
  moreover have "re_sub m (render rep) (Some c) 0 (render ts) = render (tok_sub tm rep ts)"
    using "2.prems" by (intro "2.IH") (auto simp: nonword_prev_def)
  ultimately show ?case by simp
next
  case (3 tm rep w ts)
  note cor = "3.prems"(1) and wf = "3.prems"(2)
  from wf obtain c w' where w: "w = c # w'" by (cases w) auto
  have bnd: "\<And>p s n. m p s = Some n \<Longrightarrow> word_boundary p s"
    using corresponds_match [OF cor] by blast
  have np: "nonword_prev p" using "3.prems" by simp
  have mv: "m p (w @ render ts) =
      (case tm w ts of None \<Rightarrow> None | Some k \<Rightarrow> Some (length w + length (render (take k ts))))"
    using corresponds_value [OF cor wf np] .
  show ?case
  proof (cases "tm w ts")
    case None
    have wc: "is_word_char c" "list_all is_word_char w'" using wf w by auto
    have "re_sub m (render rep) p 0 (render (W w # ts)) =
        c # re_sub m (render rep) (Some c) 0 (w' @ render ts)"
      using mv None w by simp
    also have "\<dots> = c # w' @ re_sub m (render rep) (Some (last w)) 0 (render ts)"
      using re_sub_word_interior [of m c w' "render rep" "render ts", OF bnd wc] w by simp
    also have "re_sub m (render rep) (Some (last w)) 0 (render ts) = render (tok_sub tm rep ts)"
      using cor wf None by (intro "3.IH"(1)) auto
    finally show ?thesis using None w by simp
  next
    case (Some k)
    have k: "k \<le> length ts" "\<not> starts_with_word (drop k ts)"
      using corresponds_rest [OF cor wf Some] by blast+
    let ?mid = "w' @ render (take k ts)"
    have split: "w' @ render ts = ?mid @ render (drop k ts)"
      by (simp add: render_append [symmetric])
    have "m p (c # w' @ render ts) = Some (Suc (length ?mid))"
      using mv Some w by simp
    then have "re_sub m (render rep) p 0 (render (W w # ts)) =
        render rep @ re_sub m (render rep) (Some c) (length ?mid) (?mid @ render (drop k ts))"
      using w split by simp
    also have "re_sub m (render rep) (Some c) (length ?mid) (?mid @ render (drop k ts)) =
        re_sub m (render rep) (if ?mid = [] then Some c else Some (last ?mid)) 0 (render (drop k ts))"
      by (rule re_sub_skip)
    also have "\<dots> = render (tok_sub tm rep (drop k ts))"
      using cor wf Some k by (intro "3.IH"(2)) (auto simp: wf_drop)
    finally show ?thesis using Some by (simp add: render_append)
  qed
qed

lemma tok_sub_starts: "\<not> starts_with_word ts \<Longrightarrow> \<not> starts_with_word (tok_sub tm rep ts)"
  by (cases ts rule: starts_with_word.cases) auto

lemma wf_append:
  "wf_toks a \<Longrightarrow> wf_toks b \<Longrightarrow> \<not> starts_with_word b \<Longrightarrow> wf_toks (a @ b)"
proof (induction a rule: wf_toks.induct)
  case 1
  then show ?case by simp
next
  case (2 c ts)
  then show ?case by simp
next
  case (3 w ts)
  then show ?case by (cases ts rule: starts_with_word.cases) auto
qed

lemma wf_tok_sub:
  "corresponds m tm \<Longrightarrow> wf_toks rep \<Longrightarrow> wf_toks ts \<Longrightarrow> wf_toks (tok_sub tm rep ts)"
proof (induction tm rep ts rule: tok_sub.induct)
  case (1 tm rep)
  show ?case by simp
next
  case (2 tm rep c ts)
  then show ?case by simp
next
  case (3 tm rep w ts)
  show ?case
  proof (cases "tm w ts")
    case None
    then show ?thesis using 3 by (auto simp: tok_sub_starts)
  next
    case (Some k)
    have k: "\<not> starts_with_word (drop k ts)"
      using corresponds_rest [OF "3.prems"(1) "3.prems"(3) Some] by blast
    have "wf_toks (tok_sub tm rep (drop k ts))"
      using 3 Some by (auto simp: wf_drop)
    then show ?thesis using Some "3.prems"(2) k by (auto intro!: wf_append simp: tok_sub_starts)
  qed
qed

subsection \<open>Where nothing matches\<close>

lemma nomatch_tok_sub: "nomatch tm ts \<Longrightarrow> tok_sub tm rep ts = ts"
  by (induction tm ts rule: nomatch.induct) auto

subsection \<open>Characters\<close>

lemma upper_letters_word: "list_all is_word_char ''ABCDEFGHIJKLMNOPQRSTUVWXYZ''"
  by code_simp

lemma lower_letters_word: "list_all is_word_char ''abcdefghijklmnopqrstuvwxyz''"
  by code_simp

lemma lower_char_changes:
  assumes "lower_char c \<noteq> c"
  shows "is_word_char c \<and> is_word_char (lower_char c)"
proof -
  let ?U = "''ABCDEFGHIJKLMNOPQRSTUVWXYZ''" and ?L = "''abcdefghijklmnopqrstuvwxyz''"
  from assms obtain l where l: "map_of (zip ?U ?L) c = Some l" "lower_char c = l"
    unfolding lower_char_def by (cases "map_of (zip ?U ?L) c") auto
  from l(1) have "(c, l) \<in> set (zip ?U ?L)" by (rule map_of_SomeD)
  then have "c \<in> set ?U" "l \<in> set ?L" by (auto dest: set_zip_leftD set_zip_rightD)
  then show ?thesis
    using upper_letters_word lower_letters_word l(2) unfolding list_all_iff by blast
qed

lemma is_word_lower_char: "is_word_char (lower_char c) = is_word_char c"
  using lower_char_changes [of c] by (cases "lower_char c = c") auto

lemma lower_char_nonword: "\<not> is_word_char d \<Longrightarrow> lower_char c = d \<longleftrightarrow> c = d"
proof (cases "lower_char c = c")
  case True
  then show ?thesis by simp
next
  case False
  assume d: "\<not> is_word_char d"
  from lower_char_changes [OF False] d show ?thesis by auto
qed

lemma spaces_nonword:
  "list_all (\<lambda>c. \<not> is_word_char c)
     [CHR '' '', CHR 0x09, CHR 0x0A, CHR 0x0B, CHR 0x0C, CHR 0x0D, CHR 0x1C, CHR 0x1D, CHR 0x1E,
      CHR 0x1F]"
  by code_simp

lemma space_nonword: "is_space c \<Longrightarrow> \<not> is_word_char c"
  using spaces_nonword unfolding is_space_def list_all_iff by blast

lemma lower_eq_word: "lower_char c = lower_char l \<Longrightarrow> is_word_char c = is_word_char l"
  using is_word_lower_char [of c] is_word_lower_char [of l] by simp

lemma length_lower: "length (lower s) = length s"
  by (simp add: lower_def)

lemma lower_eq_length: "lower a = lower b \<Longrightarrow> length a = length b"
  using length_lower [of a] length_lower [of b] by simp

lemma lower_take: "lower (take n s) = take n (lower s)"
  by (simp add: lower_def take_map)

lemma lower_Nil: "lower s = [] \<longleftrightarrow> s = []"
  by (simp add: lower_def)

lemma lower_Cons: "lower (c # s) = lower_char c # lower s"
  by (simp add: lower_def)

subsection \<open>Literals at the start of a text\<close>

lemma ci_startswith_Nil: "ci_startswith s [] = True"
  by (simp add: ci_startswith_def lower_def)

lemma ci_startswith_Nil_Cons: "ci_startswith [] (l # lit) = False"
  by (simp add: ci_startswith_def)

lemma ci_startswith_Cons:
  "ci_startswith (c # s) (l # lit) = (lower_char c = lower_char l \<and> ci_startswith s lit)"
  by (auto simp: ci_startswith_def lower_def)

lemmas ci_simps = ci_startswith_Nil ci_startswith_Nil_Cons ci_startswith_Cons

lemma ci_startswith_word:
  "list_all is_word_char lit \<Longrightarrow> rest = [] \<or> \<not> is_word_char (hd rest) \<Longrightarrow>
   ci_startswith (w @ rest) lit = ci_startswith w lit"
proof (induction w arbitrary: lit)
  case Nil
  show ?case
  proof (cases lit)
    case Nil
    then show ?thesis by (simp add: ci_simps)
  next
    case (Cons l lit')
    show ?thesis
    proof (cases rest)
      case Nil
      then show ?thesis using Cons by (simp add: ci_simps)
    next
      case (Cons r rest')
      then show ?thesis using \<open>lit = l # lit'\<close> Nil.prems lower_eq_word [of r l]
        by (auto simp: ci_simps)
    qed
  qed
next
  case (Cons c w)
  then show ?case by (cases lit) (auto simp: ci_simps)
qed

lemma ci_startswith_same_length:
  "length lit = length w \<Longrightarrow> ci_startswith w lit = (lower lit = lower w)"
  by (auto simp: ci_startswith_def)

lemma ci_startswith_via_lower:
  "ci_startswith s lit = (length lit \<le> length (lower s) \<and> take (length lit) (lower s) = lower lit)"
  by (simp add: ci_startswith_def lower_take length_lower)

lemma ci_startswith_lower: "lower a = lower b \<Longrightarrow> ci_startswith a lit = ci_startswith b lit"
  by (simp add: ci_startswith_via_lower)

lemma alt_matches_Cons:
  "alt \<noteq> [] \<Longrightarrow>
   alt_matches (c # s) (l # alt) = (lower_char c = lower_char l \<and> alt_matches s alt)"
proof (cases s)
  case Nil
  assume "alt \<noteq> []"
  then obtain a alt' where "alt = a # alt'" by (cases alt) auto
  then show ?thesis using Nil by (simp add: alt_matches_def ci_simps)
next
  case (Cons x xs)
  assume "alt \<noteq> []"
  then obtain a alt' where "alt = a # alt'" by (cases alt) auto
  then show ?thesis using Cons by (auto simp: alt_matches_def ci_simps)
qed

lemma pure_match:
  assumes "alt \<noteq> []" "list_all is_word_char alt" "w \<noteq> []" "list_all is_word_char w"
    and "rest = [] \<or> \<not> is_word_char (hd rest)"
  shows "alt_matches (w @ rest) alt = (lower alt = lower w)"
proof -
  have ci: "ci_startswith (w @ rest) alt = ci_startswith w alt"
    using assms by (intro ci_startswith_word)
  consider "length alt = length w" | "length alt < length w" | "length w < length alt"
    by linarith
  then show ?thesis
  proof cases
    case 1
    have "is_word_char (last w)" using assms(3,4) by (simp add: list_all_iff)
    then have "word_boundary (Some (last w)) rest"
      using assms(5) by (cases rest) (auto simp: word_boundary_def)
    then show ?thesis using 1 ci by (simp add: alt_matches_def ci_startswith_same_length)
  next
    case 2
    let ?n = "length alt"
    have n: "0 < ?n" using assms(1) by simp
    have "take ?n (w @ rest) = take ?n w" using 2 by simp
    moreover have "last (take ?n w) \<in> set w"
    proof -
      have "take ?n w \<noteq> []" using n 2 by auto
      then have "last (take ?n w) \<in> set (take ?n w)" by (rule last_in_set)
      then show ?thesis by (rule in_set_takeD)
    qed
    ultimately have "is_word_char (last (take ?n (w @ rest)))"
      using assms(4) by (simp add: list_all_iff)
    moreover have "drop ?n (w @ rest) = drop ?n w @ rest" using 2 by simp
    moreover have "drop ?n w \<noteq> []" using 2 by simp
    moreover have "is_word_char (hd (drop ?n w))"
      using assms(4) 2 by (simp add: hd_drop_conv_nth list_all_length)
    ultimately have "\<not> word_boundary (Some (last (take ?n (w @ rest)))) (drop ?n (w @ rest))"
      by (cases "drop ?n w") (auto simp: word_boundary_def)
    moreover have "lower alt \<noteq> lower w" using 2 lower_eq_length [of alt w] by auto
    ultimately show ?thesis by (simp add: alt_matches_def)
  next
    case 3
    have "\<not> ci_startswith w alt" using 3 by (simp add: ci_startswith_def)
    moreover have "lower alt \<noteq> lower w" using 3 lower_eq_length [of alt w] by auto
    ultimately show ?thesis using ci by (simp add: alt_matches_def)
  qed
qed

lemma filter_head: "filter P xs = a # as \<Longrightarrow> a \<in> set xs \<and> P a"
  by (metis filter_eq_ConsD in_set_conv_decomp)

lemma alt_matches_start:
  assumes "alt_matches s alt" "alt \<noteq> []" "is_word_char (hd alt)"
  shows "s \<noteq> [] \<and> is_word_char (hd s)"
proof -
  from assms(2) obtain l alt' where alt: "alt = l # alt'" by (cases alt) auto
  from assms(1) have ci: "ci_startswith s alt" by (simp add: alt_matches_def)
  then obtain c s' where s: "s = c # s'" using alt by (cases s) (auto simp: ci_simps)
  then have "lower_char c = lower_char l" using ci alt by (simp add: ci_simps)
  then show ?thesis using lower_eq_word [of c l] assms(3) alt s by simp
qed

lemma match_words_bounded:
  assumes "\<forall>alt\<in>set alts. alt \<noteq> [] \<and> is_word_char (hd alt)"
    and "match_words alts p s = Some n"
  shows "word_boundary p s \<and> s \<noteq> [] \<and> is_word_char (hd s)"
proof -
  from assms(2) have wb: "word_boundary p s"
    by (auto simp: match_words_def split: if_splits)
  from assms(2) wb obtain alt as where "filter (alt_matches s) alts = alt # as"
    by (cases "filter (alt_matches s) alts") (auto simp: match_words_def)
  from filter_head [OF this] have "alt \<in> set alts" "alt_matches s alt" by auto
  then show ?thesis using wb assms(1) alt_matches_start by blast
qed

lemma token_boundary:
  "wf_toks (W w # ts) \<Longrightarrow> nonword_prev p \<Longrightarrow> word_boundary p (w @ render ts)"
  by (cases w; cases p) (auto simp: word_boundary_def nonword_prev_def)

lemma token_rest: "wf_toks (W w # ts) \<Longrightarrow> render ts = [] \<or> \<not> is_word_char (hd (render ts))"
  by (simp add: wf_starts_nonword)

lemma corresponds_words:
  assumes "\<forall>alt\<in>set alts. alt \<noteq> [] \<and> list_all is_word_char alt"
  shows "corresponds (match_words alts) (tm_words alts)"
  unfolding corresponds_def
proof (intro conjI allI impI)
  fix p s n assume "match_words alts p s = Some n"
  moreover have "\<forall>alt\<in>set alts. alt \<noteq> [] \<and> is_word_char (hd alt)"
    using assms by (auto simp: list_all_iff)
  ultimately have "word_boundary p s \<and> s \<noteq> [] \<and> is_word_char (hd s)"
    by (rule match_words_bounded [rotated])
  then show "word_boundary p s" "s \<noteq> []" "is_word_char (hd s)" by auto
next
  fix p w ts assume a: "wf_toks (W w # ts) \<and> nonword_prev p"
  then have wb: "word_boundary p (w @ render ts)" by (simp add: token_boundary)
  have w: "w \<noteq> []" "list_all is_word_char w" using a by auto
  have f: "filter (alt_matches (w @ render ts)) alts = filter (\<lambda>alt. lower alt = lower w) alts"
  proof (rule filter_cong [OF refl])
    fix alt assume "alt \<in> set alts"
    then have "alt \<noteq> []" "list_all is_word_char alt" using assms by auto
    then show "alt_matches (w @ render ts) alt = (lower alt = lower w)"
      using w a by (intro pure_match token_rest) auto
  qed
  show "match_words alts p (w @ render ts) =
      (case tm_words alts w ts of None \<Rightarrow> None
       | Some k \<Rightarrow> Some (length w + length (render (take k ts))))"
  proof (cases "filter (\<lambda>alt. lower alt = lower w) alts")
    case Nil
    then have "lower w \<notin> set (map lower alts)"
      by (auto simp: filter_empty_conv)
    then show ?thesis using wb f Nil by (simp add: match_words_def tm_words_def)
  next
    case (Cons alt as)
    from filter_head [OF this] have alt: "alt \<in> set alts" "lower alt = lower w" by auto
    then have "lower w \<in> lower ` set alts" by (metis imageI)
    then have "lower w \<in> set (map lower alts)" by simp
    moreover have "length alt = length w" using alt(2) by (rule lower_eq_length)
    ultimately show ?thesis using wb f Cons by (simp add: match_words_def tm_words_def)
  qed
next
  fix w ts k assume "wf_toks (W w # ts) \<and> tm_words alts w ts = Some k"
  then show "k \<le> length ts" "\<not> starts_with_word (drop k ts)"
    by (auto simp: tm_words_def split: if_splits)
qed

lemma lower_literals:
  "lower_char CHR ''e'' = CHR ''e''" "lower_char CHR ''-'' = CHR ''-''"
  "lower ''mail'' = ''mail''" "lower ''emial'' = ''emial''" "lower ''emal'' = ''emal''"
  "lower ''Githaf'' = ''githaf''" "\<not> is_word_char CHR ''-''" "\<not> is_word_char CHR '' ''"
  by code_simp+

lemma literal_words:
  "list_all is_word_char ''mail''" "list_all is_word_char ''emial''"
  "list_all is_word_char ''emal''" "list_all is_word_char ''Githaf''"
  "list_all is_word_char ''Consulting''" "list_all is_word_char ''email''"
  "is_word_char CHR ''e''"
  by code_simp+

lemma email_alt:
  assumes "wf_toks (W w # ts)"
  shows "alt_matches (w @ render ts) ''e-mail'' =
     (lower w = ''e'' \<and> (\<exists>w' ts'. ts = C CHR ''-'' # W w' # ts' \<and> lower w' = ''mail''))"
proof -
  from assms obtain c w1 where w: "w = c # w1" by (cases w) auto
  show ?thesis
  proof (cases w1)
    case (Cons d w2)
    have "is_word_char d" using assms w Cons by simp
    then have "lower_char d \<noteq> CHR ''-''"
      using lower_char_nonword [of "CHR ''-''" d] lower_literals(7) by auto
    then have "\<not> alt_matches (w @ render ts) ''e-mail''"
      using w Cons by (simp add: alt_matches_Cons lower_literals)
    moreover have "lower w \<noteq> ''e''" using w Cons by (simp add: lower_Cons)
    ultimately show ?thesis by simp
  next
    case Nil
    have lw: "lower w = ''e'' \<longleftrightarrow> lower_char c = CHR ''e''"
      using w Nil by (simp add: lower_def)
    have am: "alt_matches (w @ render ts) ''e-mail'' =
        (lower_char c = CHR ''e'' \<and> alt_matches (render ts) ''-mail'')"
      using w Nil by (simp add: alt_matches_Cons lower_literals)
    show ?thesis
    proof (cases ts)
      case Nil
      then show ?thesis using am by (simp add: alt_matches_def ci_simps)
    next
      case (Cons t ts1)
      show ?thesis
      proof (cases t)
        case (W x)
        then show ?thesis using assms Cons by simp
      next
        case (C d)
        have d: "lower_char d = CHR ''-'' \<longleftrightarrow> d = CHR ''-''"
          using lower_char_nonword [of "CHR ''-''" d] lower_literals(7) by simp
        have am2: "alt_matches (render ts) ''-mail'' =
            (d = CHR ''-'' \<and> alt_matches (render ts1) ''mail'')"
          using Cons C d by (simp add: alt_matches_Cons lower_literals)
        show ?thesis
        proof (cases ts1)
          case Nil
          then show ?thesis using am am2 Cons C by (simp add: alt_matches_def ci_simps)
        next
          case (Cons u ts2)
          show ?thesis
          proof (cases u)
            case (C e)
            have "\<not> is_word_char e" using assms \<open>ts = t # ts1\<close> \<open>t = C d\<close> Cons C by simp
            then have "\<not> alt_matches (render ts1) ''mail''"
              using alt_matches_start [of "render ts1" "''mail''"] literal_words(1) Cons C
              by auto
            then show ?thesis using am am2 \<open>ts = t # ts1\<close> \<open>t = C d\<close> Cons C by simp
          next
            case (W w')
            have wf': "wf_toks (W w' # ts2)"
              using assms \<open>ts = t # ts1\<close> \<open>t = C d\<close> Cons W by simp
            have "alt_matches (w' @ render ts2) ''mail'' = (lower ''mail'' = lower w')"
              using wf' literal_words(1) by (intro pure_match token_rest) auto
            then have "alt_matches (render ts1) ''mail'' = (lower w' = ''mail'')"
              using Cons W by (auto simp: lower_literals)
            then show ?thesis using am am2 lw \<open>ts = t # ts1\<close> \<open>t = C d\<close> Cons W by auto
          qed
        qed
      qed
    qed
  qed
qed

lemma email_heads: "\<forall>alt\<in>set [''emial'', ''emal'', ''e-mail'']. alt \<noteq> [] \<and> is_word_char (hd alt)"
  using literal_words(7) by simp

lemma corresponds_email: "corresponds (match_words [''emial'', ''emal'', ''e-mail'']) tm_email"
  unfolding corresponds_def
proof (intro conjI allI impI)
  fix p s n assume "match_words [''emial'', ''emal'', ''e-mail''] p s = Some n"
  with email_heads have "word_boundary p s \<and> s \<noteq> [] \<and> is_word_char (hd s)"
    by (rule match_words_bounded)
  then show "word_boundary p s" "s \<noteq> []" "is_word_char (hd s)" by auto
next
  fix p w ts assume a: "wf_toks (W w # ts) \<and> nonword_prev p"
  then have wb: "word_boundary p (w @ render ts)" by (simp add: token_boundary)
  have wf: "wf_toks (W w # ts)" using a by simp
  have w: "w \<noteq> []" "list_all is_word_char w" using a by auto
  have m1: "alt_matches (w @ render ts) ''emial'' = (lower w = ''emial'')"
    using pure_match [of "''emial''" w "render ts"] w token_rest [OF wf] literal_words
    by (auto simp: lower_literals)
  have m2: "alt_matches (w @ render ts) ''emal'' = (lower w = ''emal'')"
    using pure_match [of "''emal''" w "render ts"] w token_rest [OF wf] literal_words
    by (auto simp: lower_literals)
  note m3 = email_alt [OF wf]
  have len: "lower w = x \<Longrightarrow> length w = length x" for x
    using length_lower [of w] by simp
  show "match_words [''emial'', ''emal'', ''e-mail''] p (w @ render ts) =
      (case tm_email w ts of None \<Rightarrow> None
       | Some k \<Rightarrow> Some (length w + length (render (take k ts))))"
  proof (cases "lower w = ''emial'' \<or> lower w = ''emal''")
    case True
    then show ?thesis using wb m1 m2 len [of "''emial''"] len [of "''emal''"]
      by (auto simp: match_words_def tm_email_def)
  next
    case False
    show ?thesis
    proof (cases "lower w = ''e'' \<and> (\<exists>w' ts'. ts = C CHR ''-'' # W w' # ts' \<and> lower w' = ''mail'')")
      case True
      then obtain w' ts' where t: "ts = C CHR ''-'' # W w' # ts'" "lower w' = ''mail''" "lower w = ''e''"
        by auto
      have "length w = 1" "length w' = 4"
        using len [of "''e''"] t length_lower [of w'] by auto
      then show ?thesis using wb m1 m2 m3 False t
        by (simp add: match_words_def tm_email_def)
    next
      case nm: False
      then have "tm_email w ts = None"
        using False by (auto simp: tm_email_def split: list.splits tok.splits)
      then show ?thesis using wb m1 m2 m3 False nm by (simp add: match_words_def)
    qed
  qed
next
  fix w ts k assume "wf_toks (W w # ts) \<and> tm_email w ts = Some k"
  then show "k \<le> length ts" "\<not> starts_with_word (drop k ts)"
    by (auto simp: tm_email_def split: if_splits list.splits tok.splits)
qed

subsection \<open>The company name\<close>

lemma consulting_after_spaces:
  "wf_toks ts \<Longrightarrow>
   ci_startswith (dropWhile is_space (render ts)) ''Consulting'' =
     (consulting_head ts \<or> spaces_then_consulting ts)"
proof (induction ts rule: wf_toks.induct)
  case 1
  show ?case by (simp add: ci_simps)
next
  case (2 c ts)
  show ?case
  proof (cases "is_space c")
    case True
    then show ?thesis using 2 by simp
  next
    case False
    have "\<not> is_word_char c" using "2.prems" by simp
    then have "lower_char c \<noteq> lower_char CHR ''C''"
      using lower_eq_word [of c "CHR ''C''"] literal_words(5) by auto
    then show ?thesis using False by (simp add: ci_simps)
  qed
next
  case (3 w ts)
  then obtain c w' where w: "w = c # w'" by (cases w) auto
  have "\<not> is_space c" using "3.prems" w space_nonword by auto
  then have "dropWhile is_space (render (W w # ts)) = w @ render ts" using w by simp
  moreover have "ci_startswith (w @ render ts) ''Consulting'' = ci_startswith w ''Consulting''"
    using "3.prems" literal_words(5) by (intro ci_startswith_word token_rest) auto
  ultimately show ?case by simp
qed

lemma lookahead_tokens:
  "wf_toks ts \<Longrightarrow> lookahead_consulting (render ts) = spaces_then_consulting ts"
proof (cases ts rule: spaces_then_consulting.cases)
  case (1 c ts')
  assume "wf_toks ts"
  then have "wf_toks ts'" using 1 by simp
  from consulting_after_spaces [OF this] show ?thesis
    using 1 by (auto simp: lookahead_consulting_def)
next
  case 2
  then show ?thesis by (simp add: lookahead_consulting_def)
next
  case (3 w ts')
  assume "wf_toks ts"
  then obtain c w' where "w = c # w'" "is_word_char c" using 3 by (cases w) auto
  then have "takeWhile is_space (render ts) = []"
    using 3 space_nonword by auto
  then show ?thesis using 3 by (simp add: lookahead_consulting_def)
qed

lemma match_githaf_alt:
  "match_githaf p s =
     (if word_boundary p s \<and> alt_matches s ''Githaf'' \<and> \<not> lookahead_consulting (drop 6 s)
      then Some 6 else None)"
proof -
  have l: "length ''Githaf'' = 6" by simp
  show ?thesis unfolding match_githaf_def alt_matches_def l by auto
qed

lemma corresponds_githaf: "corresponds match_githaf tm_githaf"
  unfolding corresponds_def
proof (intro conjI allI impI)
  fix p s n assume "match_githaf p s = Some n"
  then have "word_boundary p s" "alt_matches s ''Githaf''"
    by (auto simp: match_githaf_alt split: if_splits)
  moreover have "''Githaf'' \<noteq> []" "is_word_char (hd ''Githaf'')" using literal_words(4) by auto
  ultimately have "word_boundary p s \<and> s \<noteq> [] \<and> is_word_char (hd s)"
    using alt_matches_start by blast
  then show "word_boundary p s" "s \<noteq> []" "is_word_char (hd s)" by auto
next
  fix p w ts assume a: "wf_toks (W w # ts) \<and> nonword_prev p"
  then have wb: "word_boundary p (w @ render ts)" by (simp add: token_boundary)
  have wf: "wf_toks (W w # ts)" "wf_toks ts" using a by auto
  have w: "w \<noteq> []" "list_all is_word_char w" using a by auto
  have m: "alt_matches (w @ render ts) ''Githaf'' = (lower w = ''githaf'')"
    using pure_match [of "''Githaf''" w "render ts"] w token_rest [OF wf(1)] literal_words
    by (auto simp: lower_literals)
  show "match_githaf p (w @ render ts) =
      (case tm_githaf w ts of None \<Rightarrow> None
       | Some k \<Rightarrow> Some (length w + length (render (take k ts))))"
  proof (cases "lower w = ''githaf''")
    case True
    then have "length w = 6" using length_lower [of w] by simp
    then show ?thesis using wb m True lookahead_tokens [OF wf(2)]
      by (simp add: match_githaf_alt tm_githaf_def)
  next
    case False
    then show ?thesis using m by (simp add: match_githaf_alt tm_githaf_def)
  qed
next
  fix w ts k assume "wf_toks (W w # ts) \<and> tm_githaf w ts = Some k"
  then show "k \<le> length ts" "\<not> starts_with_word (drop k ts)"
    by (auto simp: tm_githaf_def split: if_splits)
qed

subsection \<open>A word pattern replaces words one by one\<close>

lemma wsub_C: "wsub alts rep (C c) = C c"
  by (simp add: wsub_def)

lemma wsub_W:
  "wsub alts rep (W w) = (if lower w \<in> set (map lower alts) then W rep else W w)"
  by (simp add: wsub_def)

lemma tok_sub_words: "tok_sub (tm_words alts) [W rep] ts = map (wsub alts rep) ts"
  by (induction ts) (auto simp: tm_words_def wsub_def split: tok.splits)

lemma nomatch_drop: "nomatch tm ts \<Longrightarrow> nomatch tm (drop k ts)"
proof (induction tm ts arbitrary: k rule: nomatch.induct)
  case (1 tm)
  then show ?case by simp
next
  case (2 tm c ts)
  then show ?case by (cases k) auto
next
  case (3 tm w ts)
  then show ?case by (cases k) auto
qed

lemma nomatch_words_iff:
  "nomatch (tm_words alts) ts \<longleftrightarrow> (\<forall>w. W w \<in> set ts \<longrightarrow> lower w \<notin> set (map lower alts))"
  by (induction "tm_words alts" ts rule: nomatch.induct) (auto simp: tm_words_def)

lemma words_established:
  "lower rep \<notin> set (map lower alts) \<Longrightarrow> nomatch (tm_words alts) (map (wsub alts rep) ts)"
  unfolding nomatch_words_iff by (auto simp: wsub_def split: tok.splits if_splits)

lemma words_preserved:
  "nomatch (tm_words S) ts \<Longrightarrow> lower rep \<notin> set (map lower S) \<Longrightarrow>
   nomatch (tm_words S) (map (wsub alts rep) ts)"
  unfolding nomatch_words_iff by (auto simp: wsub_def split: tok.splits if_splits)

lemma email_preserved:
  assumes "lower rep \<noteq> ''emial''" "lower rep \<noteq> ''emal''" "lower rep \<noteq> ''e''" "lower rep \<noteq> ''mail''"
  shows "nomatch tm_email ts \<Longrightarrow> nomatch tm_email (map (wsub alts rep) ts)"
proof (induction tm_email ts rule: nomatch.induct)
  case 1
  show ?case by simp
next
  case (2 c ts)
  then show ?case by (simp add: wsub_def)
next
  case (3 w ts)
  then have IH: "nomatch tm_email (map (wsub alts rep) ts)" and none: "tm_email w ts = None"
    by auto
  have "tm_email v (map (wsub alts rep) ts) = None"
    if v: "v = rep \<or> v = w" for v
  proof (cases "v = rep")
    case True
    then show ?thesis using assms by (auto simp: tm_email_def split: list.splits tok.splits)
  next
    case False
    then have "v = w" using v by simp
    then show ?thesis using none assms
      by (auto simp: tm_email_def wsub_def split: list.splits tok.splits if_splits)
  qed
  then show ?case using IH by (auto simp: wsub_def)
qed

lemma consulting_head_lower:
  "consulting_head (W w # ts) \<Longrightarrow> lower w = lower alt \<Longrightarrow> ci_startswith alt ''Consulting''"
  using ci_startswith_lower [of w alt "''Consulting''"] by simp

lemma spaces_then_consulting_wsub:
  assumes "\<forall>alt\<in>set alts. \<not> ci_startswith alt ''Consulting''"
  shows "spaces_then_consulting ts \<Longrightarrow> spaces_then_consulting (map (wsub alts rep) ts)"
proof (induction ts rule: spaces_then_consulting.induct)
  case (1 c ts)
  have "consulting_head (map (wsub alts rep) ts)" if "consulting_head ts"
  proof -
    from that obtain w ts' where t: "ts = W w # ts'" by (cases ts rule: consulting_head.cases) auto
    have "lower w \<notin> set (map lower alts)"
    proof
      assume "lower w \<in> set (map lower alts)"
      then obtain alt where "alt \<in> set alts" "lower w = lower alt" by auto
      then show False using that t assms consulting_head_lower by blast
    qed
    then show ?thesis using that t by (simp add: wsub_def)
  qed
  then show ?case using 1 by (auto simp: wsub_C)
next
  case 2
  then show ?case by simp
next
  case (3 w ts)
  then show ?case by simp
qed

lemma githaf_preserved:
  assumes "lower rep \<noteq> ''githaf''" "\<forall>alt\<in>set alts. \<not> ci_startswith alt ''Consulting''"
  shows "nomatch tm_githaf ts \<Longrightarrow> nomatch tm_githaf (map (wsub alts rep) ts)"
proof (induction tm_githaf ts rule: nomatch.induct)
  case 1
  show ?case by simp
next
  case (2 c ts)
  then show ?case by (simp add: wsub_def)
next
  case (3 w ts)
  then have IH: "nomatch tm_githaf (map (wsub alts rep) ts)" and none: "tm_githaf w ts = None"
    by auto
  have "tm_githaf rep (map (wsub alts rep) ts) = None"
    using assms(1) by (simp add: tm_githaf_def)
  moreover have "tm_githaf w (map (wsub alts rep) ts) = None"
    using none spaces_then_consulting_wsub [OF assms(2), of ts rep]
    by (auto simp: tm_githaf_def split: if_splits)
  ultimately show ?case using IH by (auto simp: wsub_def)
qed

subsection \<open>After the e-mail pattern and the company pattern\<close>

lemma lower_more:
  "lower ''email'' = ''email''" "lower ''Consulting'' = ''consulting''"
  "ci_startswith ''Consulting'' ''Consulting''" "is_space CHR '' ''"
  by code_simp+

lemma tm_email_email: "tm_email ''email'' ts = None"
  by (auto simp: tm_email_def lower_more split: list.splits tok.splits)

lemma tok_sub_email_head:
  "tok_sub tm_email [W ''email''] (W w # ts) = W v # us \<Longrightarrow> lower w \<noteq> ''mail'' \<Longrightarrow>
   lower v \<noteq> ''mail''"
  by (cases "tm_email w ts") (auto simp: lower_more)

lemma email_established: "nomatch tm_email (tok_sub tm_email [W ''email''] ts)"
proof (induction tm_email "[W ''email'']" ts rule: tok_sub.induct)
  case 1
  show ?case by simp
next
  case (2 c ts)
  then show ?case by simp
next
  case (3 w ts)
  show ?case
  proof (cases "tm_email w ts")
    case (Some k)
    then show ?thesis using 3 by (simp add: tm_email_email)
  next
    case None
    let ?out = "tok_sub tm_email [W ''email''] ts"
    have "tm_email w ?out = None"
    proof (cases "lower w = ''e''")
      case False
      then show ?thesis using None
        by (auto simp: tm_email_def split: list.splits tok.splits if_splits)
    next
      case True
      have w: "lower w \<noteq> ''emial''" "lower w \<noteq> ''emal''" using True by auto
      show ?thesis
      proof (cases ts)
        case Nil
        then show ?thesis using w by (simp add: tm_email_def)
      next
        case (Cons t ts1)
        show ?thesis
        proof (cases t)
          case (W x)
          then have "\<exists>v us. ?out = W v # us"
            using Cons by (cases "tm_email x ts1") auto
          then show ?thesis using w by (auto simp: tm_email_def)
        next
          case (C c)
          show ?thesis
          proof (cases ts1)
            case Nil
            then show ?thesis using w Cons C by (simp add: tm_email_def)
          next
            case (Cons u ts2)
            show ?thesis
            proof (cases u)
              case (C d)
              then show ?thesis using w \<open>ts = t # ts1\<close> \<open>t = C c\<close> Cons by (simp add: tm_email_def)
            next
              case (W x)
              have cfg: "\<not> (c = CHR ''-'' \<and> lower x = ''mail'')"
                using None True w \<open>ts = t # ts1\<close> \<open>t = C c\<close> Cons W
                by (auto simp: tm_email_def)
              obtain v us where out: "tok_sub tm_email [W ''email''] (W x # ts2) = W v # us"
                by (cases "tm_email x ts2") auto
              have "c = CHR ''-'' \<Longrightarrow> lower v \<noteq> ''mail''"
                using tok_sub_email_head [OF out] cfg by auto
              then show ?thesis
                using w \<open>ts = t # ts1\<close> \<open>t = C c\<close> Cons W out by (auto simp: tm_email_def)
            qed
          qed
        qed
      qed
    qed
    then show ?thesis using 3 None by simp
  qed
qed

lemma long_word_plain:
  assumes "ci_startswith w ''Consulting''"
  shows "lower w \<noteq> ''githaf''" "lower w \<noteq> ''emial''" "lower w \<noteq> ''emal''" "lower w \<noteq> ''e''"
proof -
  have "10 \<le> length w" using assms by (simp add: ci_startswith_def)
  then have "10 \<le> length (lower w)" by (simp add: length_lower)
  then show "lower w \<noteq> ''githaf''" "lower w \<noteq> ''emial''" "lower w \<noteq> ''emal''" "lower w \<noteq> ''e''"
    by auto
qed

lemma consulting_head_email:
  "consulting_head ts \<Longrightarrow> consulting_head (tok_sub tm_email [W ''email''] ts)"
proof (cases ts rule: consulting_head.cases)
  case (1 w ts')
  assume "consulting_head ts"
  then have "ci_startswith w ''Consulting''" using 1 by simp
  from long_word_plain [OF this] have "tm_email w ts' = None"
    by (auto simp: tm_email_def split: list.splits tok.splits)
  then show ?thesis using 1 \<open>consulting_head ts\<close> by simp
qed auto

lemma consulting_head_githaf:
  "consulting_head ts \<Longrightarrow> consulting_head (tok_sub tm_githaf company_toks ts)"
proof (cases ts rule: consulting_head.cases)
  case (1 w ts')
  assume "consulting_head ts"
  then have "ci_startswith w ''Consulting''" using 1 by simp
  from long_word_plain [OF this] have "tm_githaf w ts' = None"
    by (auto simp: tm_githaf_def)
  then show ?thesis using 1 \<open>consulting_head ts\<close> by simp
qed auto

lemma spaces_then_consulting_email:
  "spaces_then_consulting ts \<Longrightarrow> spaces_then_consulting (tok_sub tm_email [W ''email''] ts)"
proof (induction ts rule: spaces_then_consulting.induct)
  case (1 c ts)
  then show ?case using consulting_head_email [of ts] by auto
qed auto

lemma spaces_then_consulting_githaf:
  "spaces_then_consulting ts \<Longrightarrow> spaces_then_consulting (tok_sub tm_githaf company_toks ts)"
proof (induction ts rule: spaces_then_consulting.induct)
  case (1 c ts)
  then show ?case using consulting_head_githaf [of ts] by auto
qed auto

lemma githaf_established: "nomatch tm_githaf (tok_sub tm_githaf company_toks ts)"
proof (induction tm_githaf company_toks ts rule: tok_sub.induct)
  case 1
  show ?case by simp
next
  case (2 c ts)
  then show ?case by simp
next
  case (3 w ts)
  show ?case
  proof (cases "tm_githaf w ts")
    case (Some k)
    have "tm_githaf ''Githaf'' (C CHR '' '' # W ''Consulting'' # us) = None" for us
      by (simp add: tm_githaf_def lower_more)
    moreover have "tm_githaf ''Consulting'' us = None" for us
      by (simp add: tm_githaf_def lower_more)
    ultimately show ?thesis using 3 Some by (simp add: company_toks_def)
  next
    case None
    then have "tm_githaf w (tok_sub tm_githaf company_toks ts) = None"
      using spaces_then_consulting_githaf [of ts] by (auto simp: tm_githaf_def split: if_splits)
    then show ?thesis using 3 None by simp
  qed
qed

lemma githaf_preserved_email:
  "nomatch tm_githaf ts \<Longrightarrow> nomatch tm_githaf (tok_sub tm_email [W ''email''] ts)"
proof (induction tm_email "[W ''email'']" ts rule: tok_sub.induct)
  case 1
  show ?case by simp
next
  case (2 c ts)
  then show ?case by simp
next
  case (3 w ts)
  show ?case
  proof (cases "tm_email w ts")
    case (Some k)
    have "nomatch tm_githaf (drop k ts)" using "3.prems" by (simp add: nomatch_drop)
    moreover have "tm_githaf ''email'' us = None" for us
      by (simp add: tm_githaf_def lower_more)
    ultimately show ?thesis using 3 Some by simp
  next
    case None
    have "tm_githaf w (tok_sub tm_email [W ''email''] ts) = None"
      using "3.prems" spaces_then_consulting_email [of ts]
      by (auto simp: tm_githaf_def split: if_splits)
    then show ?thesis using 3 None by simp
  qed
qed

subsection \<open>The whole preprocessing on words and separators\<close>

lemma misspelling_map_split:
  "misspelling_map = ([''emial'', ''emal'', ''e-mail''], ''email'') # word_entries"
  by (simp add: word_entries_def misspelling_map_def)

lemma word_entries_pure:
  "list_all (\<lambda>pr. list_all (\<lambda>alt. alt \<noteq> [] \<and> list_all is_word_char alt) (fst pr) \<and>
      snd pr \<noteq> [] \<and> list_all is_word_char (snd pr)) word_entries"
  by code_simp

lemma word_entries_reps:
  "list_all (\<lambda>pr. list_all (\<lambda>pr'. lower (snd pr') \<notin> set (map lower (fst pr))) word_entries)
     word_entries"
  by code_simp

lemma word_entries_email:
  "list_all (\<lambda>pr. lower (snd pr) \<noteq> ''emial'' \<and> lower (snd pr) \<noteq> ''emal'' \<and>
      lower (snd pr) \<noteq> ''e'' \<and> lower (snd pr) \<noteq> ''mail'') word_entries"
  by code_simp

lemma word_entries_githaf:
  "list_all (\<lambda>pr. lower (snd pr) \<noteq> ''githaf'' \<and>
      list_all (\<lambda>alt. \<not> ci_startswith alt ''Consulting'') (fst pr)) word_entries"
  by code_simp

lemma wf_company_toks: "wf_toks company_toks"
  using literal_words lower_literals(8) by (simp add: company_toks_def)

lemma render_company_toks: "render company_toks = ''Githaf Consulting''"
  by (simp add: company_toks_def)

lemma normalize_company_toks:
  "wf_toks ts \<Longrightarrow> normalize_company (render ts) = render (tok_sub tm_githaf company_toks ts)"
  using sim [OF corresponds_githaf, of ts None company_toks]
  by (simp add: normalize_company_def render_company_toks nonword_prev_def)

lemma fix_email_toks:
  "wf_toks ts \<Longrightarrow>
   fix_misspelling (render ts) ([''emial'', ''emal'', ''e-mail''], ''email'') =
     render (tok_sub tm_email [W ''email''] ts)"
  using sim [OF corresponds_email, of ts None "[W ''email'']"]
  by (simp add: fix_misspelling_def nonword_prev_def)

lemma word_entry_pure:
  assumes "pr \<in> set word_entries"
  shows "\<forall>alt\<in>set (fst pr). alt \<noteq> [] \<and> list_all is_word_char alt"
    and "snd pr \<noteq> []" and "list_all is_word_char (snd pr)"
  using assms word_entries_pure unfolding list_all_iff by blast+

lemma fix_word_toks:
  assumes "pr \<in> set word_entries" "wf_toks ts"
  shows "fix_misspelling (render ts) pr = render (tok_fix ts pr)"
proof -
  have "corresponds (match_words (fst pr)) (tm_words (fst pr))"
    using word_entry_pure(1) [OF assms(1)] by (rule corresponds_words)
  from sim [OF this, of ts None "[W (snd pr)]"] assms(2)
  show ?thesis
    by (simp add: fix_misspelling_def nonword_prev_def tok_sub_words tok_fix_def)
qed

lemma wf_tok_fix:
  assumes "pr \<in> set word_entries" "wf_toks ts"
  shows "wf_toks (tok_fix ts pr)"
proof -
  have "corresponds (match_words (fst pr)) (tm_words (fst pr))"
    using word_entry_pure(1) [OF assms(1)] by (rule corresponds_words)
  moreover have "wf_toks [W (snd pr)]"
    using word_entry_pure(2,3) [OF assms(1)] by simp
  ultimately have "wf_toks (tok_sub (tm_words (fst pr)) [W (snd pr)] ts)"
    using assms(2) by (rule wf_tok_sub)
  then show ?thesis by (simp add: tok_sub_words tok_fix_def)
qed

lemma foldl_fix_toks:
  "set es \<subseteq> set word_entries \<Longrightarrow> wf_toks ts \<Longrightarrow>
   foldl fix_misspelling (render ts) es = render (foldl tok_fix ts es) \<and>
   wf_toks (foldl tok_fix ts es)"
proof (induction es arbitrary: ts)
  case Nil
  then show ?case by simp
next
  case (Cons pr es)
  have pr: "pr \<in> set word_entries" using Cons.prems by simp
  have "wf_toks (tok_fix ts pr)" using pr Cons.prems(2) by (rule wf_tok_fix)
  moreover have "set es \<subseteq> set word_entries" using Cons.prems by simp
  ultimately show ?case
    using Cons.IH [of "tok_fix ts pr"] fix_word_toks [OF pr Cons.prems(2)] by simp
qed

lemma preprocess_toks_string:
  assumes "wf_toks ts"
  shows "foldl fix_misspelling (normalize_company (render ts)) misspelling_map =
           render (preprocess_toks ts)"
    and "wf_toks (preprocess_toks ts)"
proof -
  let ?g = "tok_sub tm_githaf company_toks ts"
  let ?e = "tok_sub tm_email [W ''email''] ?g"
  have wg: "wf_toks ?g"
    using corresponds_githaf wf_company_toks assms by (rule wf_tok_sub)
  have "wf_toks [W ''email'']" using literal_words by simp
  with corresponds_email have we: "wf_toks ?e" using wg by (rule wf_tok_sub)
  have "foldl fix_misspelling (normalize_company (render ts)) misspelling_map =
      foldl fix_misspelling (render ?e) word_entries"
    by (simp add: misspelling_map_split normalize_company_toks [OF assms] fix_email_toks [OF wg])
  then show "foldl fix_misspelling (normalize_company (render ts)) misspelling_map =
      render (preprocess_toks ts)" "wf_toks (preprocess_toks ts)"
    using foldl_fix_toks [OF subset_refl we] by (simp_all add: preprocess_toks_def)
qed

subsection \<open>Nothing is left to replace\<close>

lemma foldl_tok_fix_invariant:
  assumes "\<And>ts pr. pr \<in> set es \<Longrightarrow> I ts \<Longrightarrow> I (tok_fix ts pr)" and "I ts"
  shows "I (foldl tok_fix ts es)"
  using assms
proof (induction es arbitrary: ts)
  case Nil
  then show ?case by simp
next
  case (Cons pr es)
  have "I (tok_fix ts pr)" using Cons.prems by simp
  then show ?case using Cons.IH [of "tok_fix ts pr"] Cons.prems(1) by simp
qed

lemma foldl_words_established:
  "set es \<subseteq> set word_entries \<Longrightarrow>
   \<forall>pr\<in>set es. nomatch (tm_words (fst pr)) (foldl tok_fix ts es)"
proof (induction es rule: rev_induct)
  case Nil
  show ?case by simp
next
  case (snoc e es)
  have e: "e \<in> set word_entries" and es: "set es \<subseteq> set word_entries" using snoc.prems by auto
  have side: "lower (snd e) \<notin> set (map lower (fst pr))" if "pr \<in> set word_entries" for pr
    using word_entries_reps that e unfolding list_all_iff by blast
  show ?case
  proof
    fix pr assume "pr \<in> set (es @ [e])"
    then consider "pr = e" | "pr \<in> set es" by auto
    then show "nomatch (tm_words (fst pr)) (foldl tok_fix ts (es @ [e]))"
    proof cases
      case 1
      then show ?thesis using side [OF e] by (simp add: tok_fix_def words_established)
    next
      case 2
      then have "nomatch (tm_words (fst pr)) (foldl tok_fix ts es)"
        using snoc.IH [OF es] by blast
      moreover have "lower (snd e) \<notin> set (map lower (fst pr))" using 2 es side by blast
      ultimately show ?thesis by (simp add: tok_fix_def words_preserved)
    qed
  qed
qed

lemma preprocess_toks_clean:
  "nomatch tm_githaf (preprocess_toks ts)" "nomatch tm_email (preprocess_toks ts)"
  "\<forall>pr\<in>set word_entries. nomatch (tm_words (fst pr)) (preprocess_toks ts)"
proof -
  let ?e = "tok_sub tm_email [W ''email''] (tok_sub tm_githaf company_toks ts)"
  have g: "nomatch tm_githaf ?e"
    by (intro githaf_preserved_email githaf_established)
  have "nomatch tm_githaf (tok_fix us pr)" if "pr \<in> set word_entries" "nomatch tm_githaf us" for us pr
    using that word_entries_githaf unfolding list_all_iff tok_fix_def
    by (intro githaf_preserved) auto
  then show "nomatch tm_githaf (preprocess_toks ts)"
    unfolding preprocess_toks_def using g by (rule foldl_tok_fix_invariant)
  have "nomatch tm_email (tok_fix us pr)" if "pr \<in> set word_entries" "nomatch tm_email us" for us pr
    using that word_entries_email unfolding list_all_iff tok_fix_def
    by (intro email_preserved) auto
  then show "nomatch tm_email (preprocess_toks ts)"
    unfolding preprocess_toks_def using email_established by (rule foldl_tok_fix_invariant)
  show "\<forall>pr\<in>set word_entries. nomatch (tm_words (fst pr)) (preprocess_toks ts)"
    unfolding preprocess_toks_def by (rule foldl_words_established) simp
qed

lemma foldl_unchanged: "\<forall>e\<in>set es. f s e = s \<Longrightarrow> foldl f s es = s"
  by (induction es) simp_all

lemma preprocess_fixed:
  assumes "wf_toks q" "nomatch tm_githaf q" "nomatch tm_email q"
    and "\<forall>pr\<in>set word_entries. nomatch (tm_words (fst pr)) q"
  shows "preprocess_query (render q) = render q"
proof -
  have n: "normalize_company (render q) = render q"
    using normalize_company_toks [OF assms(1)] assms(2) by (simp add: nomatch_tok_sub)
  have e: "fix_misspelling (render q) ([''emial'', ''emal'', ''e-mail''], ''email'') = render q"
    using fix_email_toks [OF assms(1)] assms(3) by (simp add: nomatch_tok_sub)
  have w: "fix_misspelling (render q) pr = render q" if "pr \<in> set word_entries" for pr
  proof -
    have "tok_sub (tm_words (fst pr)) [W (snd pr)] q = q"
      using assms(4) that by (intro nomatch_tok_sub) blast
    then show ?thesis
      using fix_word_toks [OF that assms(1)] by (simp add: tok_fix_def tok_sub_words)
  qed
  have "\<forall>pr\<in>set misspelling_map. fix_misspelling (render q) pr = render q"
    using e w by (simp add: misspelling_map_split)
  then have "foldl fix_misspelling (render q) misspelling_map = render q"
    by (rule foldl_unchanged)
  then show ?thesis using n by (simp add: preprocess_query_def)
qed

text \<open>
  C7. For every string \<open>x\<close>, \<open>preprocess_query (preprocess_query x) = preprocess_query x\<close>,
  and an empty or whitespace-only input is returned unchanged. \<open>preprocess_query\<close> is a total
  function of the text: the scan of \<open>re.sub\<close> is a structural recursion over the text and
  no step of it can fail, so no input raises.
\<close>

theorem preprocess_query_idempotent:
  "preprocess_query (preprocess_query x) = preprocess_query x \<and>
   (x = [] \<or> strip x = [] \<longrightarrow> preprocess_query x = x)"
proof (cases "x = [] \<or> strip x = []")
  case True
  then have "preprocess_query x = x" by (simp add: preprocess_query_def)
  then show ?thesis by simp
next
  case False
  let ?q = "preprocess_toks (tokens x)"
  have "preprocess_query x = foldl fix_misspelling (normalize_company (render (tokens x))) misspelling_map"
    using False by (simp add: preprocess_query_def render_tokens)
  then have px: "preprocess_query x = render ?q"
    using preprocess_toks_string(1) [OF wf_tokens, of x] by simp
  have "preprocess_query (render ?q) = render ?q"
    using preprocess_toks_string(2) [OF wf_tokens, of x] preprocess_toks_clean [of "tokens x"]
    by (intro preprocess_fixed)
  then show ?thesis using px False by simp
qed

theorem preprocess_query_idempotent_witness:
  "preprocess_query (preprocess_query ''your emial?'') = preprocess_query ''your emial?'' \<and>
   preprocess_query ''your emial?'' = ''your email?'' \<and>
   strip ''  '' = [] \<and> preprocess_query ''  '' = ''  ''"
proof -
  have v: "preprocess_query ''your emial?'' = ''your email?''" by code_simp
  have s: "strip ''  '' = []" by code_simp
  show ?thesis
    using preprocess_query_idempotent [of "''your emial?''"]
      preprocess_query_idempotent [of "''  ''"] v s
    by blast
qed

section \<open>Properties of the pipeline\<close>

subsection \<open>Computations that fetch no history\<close>

lemma quietI:
  "(\<And>w. \<exists>es. trace (snd (m w)) = trace w @ es \<and> list_all (\<lambda>ev. \<not> is_history_event ev) es) \<Longrightarrow> quiet m"
  by (simp add: quiet_def)

lemma quietD:
  "quiet m \<Longrightarrow> \<exists>es. trace (snd (m w)) = trace w @ es \<and> list_all (\<lambda>ev. \<not> is_history_event ev) es"
  by (simp add: quiet_def)

lemma quiet_ret: "quiet (ret a)"
  by (simp add: quiet_def ret_def)

lemma quiet_get_cfg: "quiet get_cfg"
  by (simp add: quiet_def get_cfg_def)

lemma quiet_call: "\<not> is_history_event ev \<Longrightarrow> quiet (call f ev)"
  by (simp add: quiet_def call_def)

lemma quiet_log_event: "\<not> is_history_event ev \<Longrightarrow> quiet (log_event ev)"
  by (simp add: quiet_def log_event_def)

lemma quiet_raise: "quiet (\<lambda>w. (Raise e, w))"
  by (simp add: quiet_def)

lemma quiet_out_of_fuel: "quiet (\<lambda>w. (OutOfFuel, w))"
  by (simp add: quiet_def)

lemma quiet_and_then:
  assumes "quiet m" and "\<And>a. quiet (f a)"
  shows "quiet (and_then m f)"
proof (rule quietI)
  fix w
  obtain r w1 where m: "m w = (r, w1)" by (cases "m w")
  from quietD [OF assms(1), of w] m obtain es1
    where e1: "trace w1 = trace w @ es1" "list_all (\<lambda>ev. \<not> is_history_event ev) es1" by auto
  show "\<exists>es. trace (snd (and_then m f w)) = trace w @ es \<and> list_all (\<lambda>ev. \<not> is_history_event ev) es"
  proof (cases r)
    case (Ret a)
    from quietD [OF assms(2), of a w1] obtain es2
      where e2: "trace (snd (f a w1)) = trace w1 @ es2" "list_all (\<lambda>ev. \<not> is_history_event ev) es2"
      by auto
    have "trace (snd (and_then m f w)) = trace w @ (es1 @ es2)"
      using m Ret e1 e2 by (simp add: and_then_def)
    moreover have "list_all (\<lambda>ev. \<not> is_history_event ev) (es1 @ es2)" using e1 e2 by simp
    ultimately show ?thesis by blast
  next
    case (Raise e)
    then show ?thesis using m e1 by (auto simp: and_then_def)
  next
    case OutOfFuel
    then show ?thesis using m e1 by (auto simp: and_then_def)
  qed
qed

lemma quiet_try_except:
  assumes "quiet m" and "\<And>e. quiet (h e)"
  shows "quiet (try_except m h)"
proof (rule quietI)
  fix w
  obtain r w1 where m: "m w = (r, w1)" by (cases "m w")
  from quietD [OF assms(1), of w] m obtain es1
    where e1: "trace w1 = trace w @ es1" "list_all (\<lambda>ev. \<not> is_history_event ev) es1" by auto
  show "\<exists>es. trace (snd (try_except m h w)) = trace w @ es \<and> list_all (\<lambda>ev. \<not> is_history_event ev) es"
  proof (cases r)
    case (Raise e)
    from quietD [OF assms(2), of e w1] obtain es2
      where e2: "trace (snd (h e w1)) = trace w1 @ es2" "list_all (\<lambda>ev. \<not> is_history_event ev) es2"
      by auto
    have "trace (snd (try_except m h w)) = trace w @ (es1 @ es2)"
      using m Raise e1 e2 by (simp add: try_except_def)
    moreover have "list_all (\<lambda>ev. \<not> is_history_event ev) (es1 @ es2)" using e1 e2 by simp
    ultimately show ?thesis by blast
  next
    case (Ret a)
    then show ?thesis using m e1 by (auto simp: try_except_def)
  next
    case OutOfFuel
    then show ?thesis using m e1 by (auto simp: try_except_def)
  qed
qed

lemma quiet_try_finally:
  assumes "quiet m" and "\<And>w. trace (c w) = trace w"
  shows "quiet (try_finally m c)"
proof (rule quietI)
  fix w
  obtain r w1 where m: "m w = (r, w1)" by (cases "m w")
  from quietD [OF assms(1), of w] m obtain es1
    where e1: "trace w1 = trace w @ es1" "list_all (\<lambda>ev. \<not> is_history_event ev) es1" by auto
  then show "\<exists>es. trace (snd (try_finally m c w)) = trace w @ es \<and> list_all (\<lambda>ev. \<not> is_history_event ev) es"
    using m assms(2) by (cases r) (auto simp: try_finally_def)
qed

lemma quiet_random_choice: "quiet (random_choice env xs)"
  by (simp add: quiet_def random_choice_def)

lemma quiet_lookup: "quiet (lookup d key)"
  by (cases "d key") (simp_all add: lookup_def quiet_raise quiet_ret)

lemma quiet_chit_chat_template: "quiet (chit_chat_template env key)"
  by (simp add: chit_chat_template_def quiet_and_then quiet_lookup quiet_random_choice)

lemma quiet_validate_response: "quiet (validate_response env query resp srcs)"
  by (simp add: validate_response_def Let_def quiet_try_except quiet_and_then quiet_call
      quiet_ret is_history_event_def)

lemma quiet_chit_chat_response: "quiet (chit_chat_response env query None)"
  by (simp add: chit_chat_response_def Let_def quiet_chit_chat_template)

lemma quiet_clarification_response: "quiet (clarification_response env query)"
  by (simp add: clarification_response_def quiet_and_then quiet_lookup quiet_random_choice)

lemma quiet_get_conversational_response: "quiet (get_conversational_response env i query None)"
  by (simp add: get_conversational_response_def quiet_and_then quiet_ret quiet_random_choice
      quiet_clarification_response quiet_chit_chat_response)

lemma quiet_planned_response: "quiet (planned_response env query pq i None)"
  by (simp add: planned_response_def quiet_and_then quiet_call quiet_ret
      quiet_validate_response is_history_event_def)

lemma quiet_history_for_prompt: "quiet (history_for_prompt env session_id False)"
  by (simp add: history_for_prompt_def quiet_ret)

lemma trace_override_settings: "trace (override_settings s w) = trace w"
  by (simp add: override_settings_def)

lemma quiet_retry_with_adjustment:
  assumes "quiet (rag query None False 2)"
  shows "quiet (retry_with_adjustment rag query adjustment thr)"
proof (rule quietI)
  fix w
  let ?w0 = "override_settings (retry_settings adjustment thr) w"
  have "quiet (try_finally (rag query None False 2) (override_settings (cfg w)))"
    using assms by (rule quiet_try_finally) (rule trace_override_settings)
  from quietD [OF this, of ?w0]
  show "\<exists>es. trace (snd (retry_with_adjustment rag query adjustment thr w)) = trace w @ es \<and>
      list_all (\<lambda>ev. \<not> is_history_event ev) es"
    by (simp add: retry_with_adjustment_def Let_def trace_override_settings)
qed

lemma quiet_retry_loop_step:
  assumes "quiet (rag query None False 2)"
  shows "\<exists>es. trace (snd (retry_loop rag env query thr mr rt srcs v rc w)) = trace w @ es \<and>
           list_all (\<lambda>ev. \<not> is_history_event ev) es"
  using assms
proof (induction rag env query thr mr rt srcs v rc w rule: retry_loop.induct)
  case (1 rag env query threshold max_retries response_text srcs v retry_count w)
  let ?m = "and_then (log_event (LogRetry (retry_count + 1) max_retries))
      (\<lambda>_. retry_with_adjustment rag query (suggested_adjustment v) threshold)"
  show ?case
  proof (cases "\<not> is_valid v \<and> retry_recommended v \<and> retry_count < max_retries")
    case False
    then show ?thesis by (subst retry_loop.simps) auto
  next
    case True
    have qm: "quiet ?m"
      by (intro quiet_and_then quiet_log_event quiet_retry_with_adjustment "1.prems")
        (simp add: is_history_event_def)
    obtain x y where xy: "?m w = (x, y)" by (cases "?m w")
    from quietD [OF qm, of w] xy obtain es1
      where e1: "trace y = trace w @ es1" "list_all (\<lambda>ev. \<not> is_history_event ev) es1" by auto
    show ?thesis
    proof (cases x)
      case (Ret x1)
      obtain xa ya where va: "validate_response env query (response x1) (sources x1) y = (xa, ya)"
        by (cases "validate_response env query (response x1) (sources x1) y")
      from quietD [OF quiet_validate_response, of env query "response x1" "sources x1" y] va
      obtain es2 where e2: "trace ya = trace y @ es2" "list_all (\<lambda>ev. \<not> is_history_event ev) es2"
        by auto
      show ?thesis
      proof (cases xa)
        case (Ret x1a)
        from "1.IH" [OF True xy [symmetric] \<open>x = Ret x1\<close> va [symmetric] Ret "1.prems"]
        obtain es3 where e3:
          "trace (snd (retry_loop rag env query threshold max_retries (response x1) (sources x1)
              x1a (retry_count + 1) ya)) = trace ya @ es3"
          "list_all (\<lambda>ev. \<not> is_history_event ev) es3" by auto
        have "trace (snd (retry_loop rag env query threshold max_retries response_text srcs v
            retry_count w)) = trace w @ (es1 @ es2 @ es3)"
          using True xy \<open>x = Ret x1\<close> va Ret e1 e2 e3 by (subst retry_loop.simps) simp
        moreover have "list_all (\<lambda>ev. \<not> is_history_event ev) (es1 @ es2 @ es3)"
          using e1 e2 e3 by simp
        ultimately show ?thesis by blast
      next
        case (Raise e)
        have "trace (snd (retry_loop rag env query threshold max_retries response_text srcs v
            retry_count w)) = trace w @ (es1 @ es2)"
          using True xy \<open>x = Ret x1\<close> va Raise e1 e2 by (subst retry_loop.simps) simp
        moreover have "list_all (\<lambda>ev. \<not> is_history_event ev) (es1 @ es2)" using e1 e2 by simp
        ultimately show ?thesis by blast
      next
        case OutOfFuel
        have "trace (snd (retry_loop rag env query threshold max_retries response_text srcs v
            retry_count w)) = trace w @ (es1 @ es2)"
          using True xy \<open>x = Ret x1\<close> va OutOfFuel e1 e2 by (subst retry_loop.simps) simp
        moreover have "list_all (\<lambda>ev. \<not> is_history_event ev) (es1 @ es2)" using e1 e2 by simp
        ultimately show ?thesis by blast
      qed
    next
      case (Raise e)
      then show ?thesis using True xy e1 by (subst retry_loop.simps) auto
    next
      case OutOfFuel
      then show ?thesis using True xy e1 by (subst retry_loop.simps) auto
    qed
  qed
qed

lemma quiet_retry_loop:
  "quiet (rag query None False 2) \<Longrightarrow> quiet (retry_loop rag env query thr mr rt srcs v rc)"
  by (rule quietI) (rule quiet_retry_loop_step)

lemma quiet_rag_path:
  "quiet (rag query None False 2) \<Longrightarrow> quiet (rag_path rag env query pq i None False mr)"
  by (simp add: rag_path_def Let_def split_def quiet_and_then quiet_call quiet_get_cfg quiet_ret
      quiet_history_for_prompt quiet_validate_response quiet_retry_loop is_history_event_def)

lemma quiet_rag_body:
  "quiet (rag query None False 2) \<Longrightarrow> quiet (rag_body rag env query None False mr)"
  by (simp add: rag_body_def Let_def split_def quiet_try_except quiet_and_then quiet_call quiet_ret
      quiet_get_conversational_response quiet_planned_response quiet_rag_path
      is_history_event_def)

lemma quiet_get_rag_response: "quiet (get_rag_response n env query None False mr)"
proof (induction n arbitrary: mr)
  case 0
  show ?case by (simp add: quiet_out_of_fuel)
next
  case (Suc n)
  show ?case by (simp add: quiet_rag_body Suc.IH)
qed

lemma first_event:
  assumes "\<And>a. quiet (f a)" and "\<And>e. quiet (h e)"
  shows "\<exists>es. trace (snd (try_except (and_then (call c ev) f) h w)) = trace w @ ev # es \<and>
           list_all (\<lambda>ev. \<not> is_history_event ev) es"
proof -
  let ?w1 = "w\<lparr>tick := Suc (tick w), trace := trace w @ [ev]\<rparr>"
  show ?thesis
  proof (cases "c (tick w)")
    case (Inl e)
    then have "try_except (and_then (call c ev) f) h w = h e ?w1"
      by (simp add: try_except_def and_then_def call_def)
    then show ?thesis using quietD [OF assms(2), of e ?w1] by auto
  next
    case (Inr a)
    then have "try_except (and_then (call c ev) f) h w = try_except (f a) h ?w1"
      by (simp add: try_except_def and_then_def call_def)
    moreover have "quiet (try_except (f a) h)" using assms by (intro quiet_try_except)
    ultimately show ?thesis using quietD [of "try_except (f a) h" ?w1] by auto
  qed
qed

lemma rag_body_first_event:
  assumes "quiet (rag query None False 2)"
  shows "\<exists>es. trace (snd (rag_body rag env query None False mr w)) =
             trace w @ Classify (preprocess_query query) # es \<and>
           list_all (\<lambda>ev. \<not> is_history_event ev) es"
  unfolding rag_body_def Let_def
  by (rule first_event)
     (simp_all add: split_def quiet_and_then quiet_call quiet_ret
        quiet_get_conversational_response quiet_planned_response quiet_rag_path assms
        is_history_event_def)

text \<open>
  C10. A retry is the whole pipeline \<open>get_rag_response\<close>, called with no session and
  \<open>include_history=False\<close> (and the default \<open>max_retries=2\<close>) under the overridden
  settings. Whatever the collaborators answer and however deep the retries nest, the
  retry fetches no conversation history, and its first step is the classification of the
  freshly preprocessed query.
\<close>

theorem retry_without_history:
  "retry_with_adjustment (get_rag_response n env) query adjustment thr w =
     try_finally (get_rag_response n env query None False 2) (override_settings (cfg w))
       (override_settings (retry_settings adjustment thr) w) \<and>
   (\<exists>es. trace (snd (retry_with_adjustment (get_rag_response n env) query adjustment thr w)) =
           trace w @ es \<and>
         list_all (\<lambda>ev. \<not> is_history_event ev) es \<and>
         (0 < n \<longrightarrow> es \<noteq> [] \<and> hd es = Classify (preprocess_query query)))"
proof -
  let ?w0 = "override_settings (retry_settings adjustment thr) w"
  have eq: "retry_with_adjustment (get_rag_response n env) query adjustment thr w =
     try_finally (get_rag_response n env query None False 2) (override_settings (cfg w)) ?w0"
    by (simp add: retry_with_adjustment_def Let_def)
  have tr: "trace (snd (try_finally m (override_settings s) w')) = trace (snd (m w'))"
    for m :: "rag_result io" and s w'
    by (cases "m w'"; cases "fst (m w')") (auto simp: try_finally_def trace_override_settings)
  show ?thesis
  proof (cases n)
    case 0
    have "trace (snd (get_rag_response n env query None False 2 ?w0)) = trace w"
      using 0 by (simp add: trace_override_settings)
    then have "trace (snd (retry_with_adjustment (get_rag_response n env) query adjustment thr w))
        = trace w @ []"
      unfolding eq by (simp add: tr)
    moreover have "list_all (\<lambda>ev. \<not> is_history_event ev) []" by simp
    ultimately show ?thesis using eq 0 by blast
  next
    case (Suc k)
    have "quiet (get_rag_response k env query None False 2)"
      by (rule quiet_get_rag_response)
    from rag_body_first_event [where rag = "get_rag_response k env" and env = env and mr = 2
        and w = ?w0, OF this]
    obtain es where es: "trace (snd (get_rag_response n env query None False 2 ?w0)) =
        trace w @ Classify (preprocess_query query) # es"
      "list_all (\<lambda>ev. \<not> is_history_event ev) es"
      using Suc by (auto simp: trace_override_settings)
    have "trace (snd (retry_with_adjustment (get_rag_response n env) query adjustment thr w)) =
        trace w @ (Classify (preprocess_query query) # es)"
      using es by (simp add: eq tr)
    moreover have "list_all (\<lambda>ev. \<not> is_history_event ev) (Classify (preprocess_query query) # es)"
      using es by (simp add: is_history_event_def)
    moreover have "Classify (preprocess_query query) # es \<noteq> []"
      "hd (Classify (preprocess_query query) # es) = Classify (preprocess_query query)" by simp_all
    ultimately show ?thesis using eq by blast
  qed
qed

subsection \<open>Facts about the texts of the runs\<close>

lemma preprocess_fees: "preprocess_query ''fees?'' = ''fees?''"
  by code_simp

lemma fees_not_factual: "is_factual_query (lower ''fees?'') = False"
  by code_simp

lemma fees_threshold: "select_threshold s (lower ''fees?'') = RAG_SIMILARITY_THRESHOLD s"
proof -
  have "\<not> (contains ''email'' (lower ''fees?'') \<or> contains ''location'' (lower ''fees?'') \<or>
         contains ''where'' (lower ''fees?'') \<or> contains ''address'' (lower ''fees?''))"
    by code_simp
  then show ?thesis by (simp add: select_threshold_def fees_not_factual)
qed

lemma parse_rejecting_text:
  "parse_validation_response rejecting_text =
     \<lparr>is_valid = False, confidence = 1, issues = [''doesn't answer question''],
      retry_recommended = True, suggested_adjustment = ''try again''\<rparr>"
  by code_simp

lemma parse_accepting_text: "parse_validation_response ''ANSWERS_QUESTION: yes'' = default_verdict"
  by code_simp

lemma try_again_unknown: "\<not> known_adjustment ''try again''"
  by code_simp

lemma retry_settings_unknown:
  "\<not> known_adjustment adjustment \<Longrightarrow>
   retry_settings adjustment thr = \<lparr>RAG_SIMILARITY_THRESHOLD = thr, RAG_TOP_K = 5\<rparr>"
  by (simp add: known_adjustment_def retry_settings_def Let_def)

lemma override_settings_cfg: "override_settings s = (\<lambda>w. w\<lparr>cfg := s\<rparr>)"
  by (rule ext, cases s) (simp add: override_settings_def)

lemmas run_simps =
  rag_body_def rag_path_def and_then_def call_def try_except_def try_finally_def ret_def
  get_cfg_def log_event_def validate_response_def history_for_prompt_def
  retry_with_adjustment_def override_settings_def demo_env_def demo_world_def
  preprocess_fees fees_not_factual fees_threshold parse_rejecting_text parse_accepting_text
  retry_settings_unknown [OF try_again_unknown] rerank_def search_top_k_def
  default_verdict_def sources_text_def source_of_def build_context_def validation_meta_of_def
  fallback_result_def Let_def

subsection \<open>Runs of the pipeline\<close>

text \<open>
  C3. A request with \<open>max_retries=2\<close>, a session and history, against a validator that
  rejects the first three answers and accepts from then on. Each retry is a whole
  pipeline run with its own validation and its own retry loop, so the retries nest: the
  request performs three retries and seven validation rounds, and reports
  \<open>retry_count = 1\<close>.
\<close>

theorem nested_retries_exceed_max_retries:
  "(case get_rag_response (Suc (Suc (Suc (Suc 0)))) (demo_env 28) ''fees?'' (Some ''s1'') True 2
          demo_world of
      (Ret r, w) \<Rightarrow>
        map_option val_retry_count (validation r) = Some 1 \<and>
        filter is_retry_event (trace w) = [LogRetry 1 2, LogRetry 1 2, LogRetry 1 2] \<and>
        length (filter is_validation_call (trace w)) = 7
    | _ \<Rightarrow> False)"
  by (simp add: run_simps is_retry_event_def is_validation_call_def)

text \<open>
  C2 as stated fails. With \<open>RAG_TOP_K = 8\<close> configured and an adjustment text that names
  no known adjustment, the original attempt searches with \<open>top_k = 8\<close> and the retry with
  \<open>top_k = 5\<close>: the retry writes its parameters into the process-wide settings, and its
  \<open>new_top_k\<close> starts from the constant 5.
\<close>

theorem retry_changes_search_parameters:
  "filter is_search
     (trace (snd (get_rag_response (Suc (Suc 0)) (demo_env 7) ''fees?'' None False 2 demo_world))) =
     [Search 8 0.5, Search 5 0.5] \<and>
   cfg demo_world = \<lparr>RAG_SIMILARITY_THRESHOLD = 0.5, RAG_TOP_K = 8\<rparr> \<and>
   \<not> known_adjustment ''try again''"
  using try_again_unknown
  by (simp add: run_simps is_search_def)

text \<open>
  C2, amended. \<open>retry_with_adjustment\<close> runs the pipeline with the process-wide settings
  overwritten by the adjusted values, and when the pipeline returns or raises the
  settings are what they were before the retry. An adjustment text that names no known
  adjustment gives the threshold of the original attempt and \<open>top_k = 5\<close>.
\<close>

theorem retry_with_adjustment_settings:
  "(fst (retry_with_adjustment rag query adjustment thr w) \<noteq> OutOfFuel \<longrightarrow>
      cfg (snd (retry_with_adjustment rag query adjustment thr w)) = cfg w) \<and>
   retry_with_adjustment rag query adjustment thr w =
     try_finally (rag query None False 2) (\<lambda>w'. w'\<lparr>cfg := cfg w\<rparr>)
       (w\<lparr>cfg := retry_settings adjustment thr\<rparr>) \<and>
   (\<not> known_adjustment adjustment \<longrightarrow>
      retry_settings adjustment thr = \<lparr>RAG_SIMILARITY_THRESHOLD = thr, RAG_TOP_K = 5\<rparr>)"
proof -
  let ?w0 = "w\<lparr>cfg := retry_settings adjustment thr\<rparr>"
  have eq: "retry_with_adjustment rag query adjustment thr w =
     try_finally (rag query None False 2) (\<lambda>w'. w'\<lparr>cfg := cfg w\<rparr>) ?w0"
    by (simp add: retry_with_adjustment_def Let_def override_settings_cfg)
  have "cfg (snd (try_finally (rag query None False 2) (\<lambda>w'. w'\<lparr>cfg := cfg w\<rparr>) ?w0)) = cfg w"
    if "fst (try_finally (rag query None False 2) (\<lambda>w'. w'\<lparr>cfg := cfg w\<rparr>) ?w0) \<noteq> OutOfFuel"
    using that
    by (cases "rag query None False 2 ?w0"; cases "fst (rag query None False 2 ?w0)")
       (auto simp: try_finally_def)
  then show ?thesis using eq retry_settings_unknown by auto
qed

theorem retry_with_adjustment_settings_witness:
  "fst (retry_with_adjustment (get_rag_response (Suc 0) (demo_env 0)) ''fees?'' ''try again'' 0.5
          demo_world) \<noteq> OutOfFuel \<and>
   cfg (snd (retry_with_adjustment (get_rag_response (Suc 0) (demo_env 0)) ''fees?'' ''try again''
          0.5 demo_world)) = cfg demo_world \<and>
   \<not> known_adjustment ''try again'' \<and>
   retry_settings ''try again'' 0.5 = \<lparr>RAG_SIMILARITY_THRESHOLD = 0.5, RAG_TOP_K = 5\<rparr>"
proof -
  have "fst (retry_with_adjustment (get_rag_response (Suc 0) (demo_env 0)) ''fees?'' ''try again''
      0.5 demo_world) \<noteq> OutOfFuel"
    by (simp add: run_simps)
  then show ?thesis
    using retry_with_adjustment_settings [of "get_rag_response (Suc 0) (demo_env 0)" "''fees?''"
        "''try again''" "0.5" demo_world] try_again_unknown
    by blast
qed

theorem retry_without_history_witness:
  "filter is_history_event
     (trace (snd (retry_with_adjustment (get_rag_response (Suc 0) (demo_env 0)) ''fees?''
        ''try again'' 0.5 demo_world))) = [] \<and>
   hd (trace (snd (retry_with_adjustment (get_rag_response (Suc 0) (demo_env 0)) ''fees?''
        ''try again'' 0.5 demo_world))) = Classify ''fees?''"
proof -
  have t0: "trace demo_world = []" by (simp add: demo_world_def)
  from retry_without_history [of "Suc 0" "demo_env 0" "''fees?''" "''try again''" "0.5" demo_world]
  obtain es where es:
    "trace (snd (retry_with_adjustment (get_rag_response (Suc 0) (demo_env 0)) ''fees?''
        ''try again'' 0.5 demo_world)) = es"
    "list_all (\<lambda>ev. \<not> is_history_event ev) es" "hd es = Classify ''fees?''"
    by (auto simp: t0 preprocess_fees)
  have "filter is_history_event es = []"
    using es(2) by (simp add: list_all_iff filter_empty_conv)
  then show ?thesis using es by simp
qed

subsection \<open>The affirmation branch of chit-chat\<close>

text \<open>
  C9 as stated fails. Only the LLM call stands inside the \<open>try\<close>: when the fetch of the
  conversation history raises, \<open>get_conversational_response\<close> raises too.
\<close>

theorem affirmation_history_failure_propagates:
  "fst (get_conversational_response history_down_env CHIT_CHAT ''yes'' (Some ''s1'') demo_world) =
     Raise (Failure ''conversation store unavailable'')"
  by code_simp

lemma affirmations_plain:
  "q \<in> set affirmations \<Longrightarrow>
   \<not> contains ''how are you'' q \<and> \<not> contains ''how r u'' q \<and> \<not> contains ''your name'' q \<and>
   \<not> contains ''who are you'' q \<and> \<not> contains ''what are you'' q \<and> \<not> contains ''bot'' q \<and>
   \<not> contains ''robot'' q \<and> \<not> contains ''ai'' q"
proof -
  have "list_all (\<lambda>q. \<not> contains ''how are you'' q \<and> \<not> contains ''how r u'' q \<and>
      \<not> contains ''your name'' q \<and> \<not> contains ''who are you'' q \<and>
      \<not> contains ''what are you'' q \<and> \<not> contains ''bot'' q \<and>
      \<not> contains ''robot'' q \<and> \<not> contains ''ai'' q) affirmations"
    by code_simp
  then show "q \<in> set affirmations \<Longrightarrow> ?thesis" by (simp add: list_all_iff)
qed

text \<open>
  C9, amended. For a CHIT\_CHAT affirmation with a session whose history is fetched and
  formatted, \<open>get_conversational_response\<close> returns: the text of the LLM when the bounded
  call succeeds, and a template of \<open>CHIT_CHAT_RESPONSES["default"]\<close> when it raises.
\<close>

theorem affirmation_llm_failure_falls_back:
  assumes "CHIT_CHAT_RESPONSES env ''default'' = Some ds" and "ds \<noteq> []"
    and "sid \<noteq> []" and "strip (lower query) \<in> set affirmations"
    and "get_conversation_history env (tick w) sid 3 = Inr h" and "h \<noteq> []"
    and "format_history_for_llm env (Suc (tick w)) h = Inr ht"
  shows "\<exists>text w'.
      get_conversational_response env CHIT_CHAT query (Some sid) w =
        (Ret (conversational_result CHIT_CHAT text), w') \<and>
      (case generate_response env (Suc (Suc (tick w)))
              (CONVERSATIONAL_WITH_CONTEXT_PROMPT env query ht) (Some 100) (Some 0.7) of
         Inr t \<Rightarrow> text = t
       | Inl e \<Rightarrow> text \<in> set ds)"
proof -
  let ?g = "generate_response env (Suc (Suc (tick w)))
      (CONVERSATIONAL_WITH_CONTEXT_PROMPT env query ht) (Some 100) (Some 0.7)"
  note plain = affirmations_plain [OF assms(4)]
  show ?thesis
  proof (cases ?g)
    case (Inr t)
    then show ?thesis
      using assms plain
      by (simp add: get_conversational_response_def chit_chat_response_def Let_def and_then_def
          call_def try_except_def ret_def)
  next
    case (Inl e)
    let ?k = "random_index env (Suc (Suc (Suc (tick w)))) mod length ds"
    have "?k < length ds" using assms(2) by simp
    then have mem: "ds ! ?k \<in> set ds" by (rule nth_mem)
    have "\<exists>w'. get_conversational_response env CHIT_CHAT query (Some sid) w =
        (Ret (conversational_result CHIT_CHAT (ds ! ?k)), w')"
      using assms plain Inl
      by (simp add: get_conversational_response_def chit_chat_response_def Let_def and_then_def
          call_def try_except_def ret_def chit_chat_template_def lookup_def random_choice_def)
    then show ?thesis using mem Inl by auto
  qed
qed

theorem affirmation_llm_failure_falls_back_witness:
  "fst (get_conversational_response llm_down_env CHIT_CHAT '' Yes'' (Some ''s1'') demo_world) =
     Ret (conversational_result CHIT_CHAT ''Happy to chat.'')"
proof -
  have a: "CHIT_CHAT_RESPONSES llm_down_env ''default'' = Some [''Happy to chat.'']"
    "[''Happy to chat.''] \<noteq> []" "''s1'' \<noteq> []"
    by (simp_all add: llm_down_env_def demo_env_def)
  have q: "strip (lower '' Yes'') \<in> set affirmations"
    by code_simp
  have h: "get_conversation_history llm_down_env (tick demo_world) ''s1'' 3 = Inr [(''user'', ''hello'')]"
    "[(''user'', ''hello'')] \<noteq> ([] :: history)"
    "format_history_for_llm llm_down_env (Suc (tick demo_world)) [(''user'', ''hello'')] =
       Inr ''user: hello''"
    by (simp_all add: llm_down_env_def demo_env_def)
  have g: "generate_response llm_down_env (Suc (Suc (tick demo_world)))
      (CONVERSATIONAL_WITH_CONTEXT_PROMPT llm_down_env '' Yes'' ''user: hello'') (Some 100)
      (Some 0.7) = Inl (Failure ''LLM unavailable'')"
    by (simp add: llm_down_env_def demo_env_def)
  from affirmation_llm_failure_falls_back [OF a q h]
  show ?thesis by (auto simp: g)
qed

end
